theory Spec2Isabelle
  imports Main "HOL-Library.Product_Lexorder"
begin

section \<open>Representations\<close>

text \<open>
  \<^verbatim>\<open>RepresentationParser._parse_representation\<close> returns a dictionary with the keys
  \<^verbatim>\<open>id, type, codec, bandwidth, width, height, language, init_url, segment_urls\<close>.
  The numeric fields are Python integers; \<^verbatim>\<open>id\<close>, \<^verbatim>\<open>codec\<close> and \<^verbatim>\<open>init_url\<close> may be
  \<^verbatim>\<open>None\<close>; every entry of \<^verbatim>\<open>segment_urls\<close> is a result of \<^verbatim>\<open>URLBuilder.build_url\<close>,
  which is a string or \<^verbatim>\<open>None\<close>.
\<close>

record representation =
  rep_id :: "string option"
  rep_type :: string
  codec :: "string option"
  bandwidth :: int
  width :: int
  height :: int
  language :: string
  init_url :: "string option"
  segment_urls :: "string option list"

section \<open>Selection: \<^verbatim>\<open>MPDParser.get_best\<close> and \<^verbatim>\<open>MPDParser.get_worst\<close>\<close>

text \<open>
  Python's \<^verbatim>\<open>max(xs, key=f)\<close> walks the list once and replaces the candidate only when
  the key of the next item is strictly greater, so the first of several maximal items is
  returned; \<^verbatim>\<open>min\<close> replaces only on a strictly smaller key. Both raise on an empty
  list; the source calls them only under \<^verbatim>\<open>if videos\<close> / \<^verbatim>\<open>elif audios\<close>, which is the
  non-empty pattern below.
\<close>

fun max_from :: "('a \<Rightarrow> 'k::linorder) \<Rightarrow> 'a \<Rightarrow> 'a list \<Rightarrow> 'a" where
  "max_from key best [] = best"
| "max_from key best (x # xs) = max_from key (if key best < key x then x else best) xs"

fun min_from :: "('a \<Rightarrow> 'k::linorder) \<Rightarrow> 'a \<Rightarrow> 'a list \<Rightarrow> 'a" where
  "min_from key best [] = best"
| "min_from key best (x # xs) = min_from key (if key x < key best then x else best) xs"

text \<open>
  The key \<^verbatim>\<open>(r['height'], r['width'], r['bandwidth'])\<close> is a Python tuple; tuples are
  compared lexicographically, which is the order of \<open>Product_Lexorder\<close> on products.
\<close>

definition video_key :: "representation \<Rightarrow> int \<times> int \<times> int" where
  "video_key r = (height r, width r, bandwidth r)"

definition is_video :: "representation \<Rightarrow> bool" where
  "is_video r = (rep_type r = ''video'')"

definition is_audio :: "representation \<Rightarrow> bool" where
  "is_audio r = (rep_type r = ''audio'')"

definition get_best :: "representation list \<Rightarrow> representation option" where
  "get_best representations =
     (let videos = filter is_video representations;
          audios = filter is_audio representations
      in case videos of
           v # vs \<Rightarrow> Some (max_from video_key v vs)
         | [] \<Rightarrow> (case audios of
                    a # as \<Rightarrow> Some (max_from bandwidth a as)
                  | [] \<Rightarrow> None))"

definition get_worst :: "representation list \<Rightarrow> representation option" where
  "get_worst representations =
     (let videos = filter is_video representations;
          audios = filter is_audio representations
      in case videos of
           v # vs \<Rightarrow> Some (min_from video_key v vs)
         | [] \<Rightarrow> (case audios of
                    a # as \<Rightarrow> Some (min_from bandwidth a as)
                  | [] \<Rightarrow> None))"

text \<open>The order the claims speak of, written out: height first, then width, then bandwidth.\<close>

definition hwb_le :: "representation \<Rightarrow> representation \<Rightarrow> bool" where
  "hwb_le a b =
     (height a < height b \<or>
      (height a = height b \<and>
        (width a < width b \<or> (width a = width b \<and> bandwidth a \<le> bandwidth b))))"

text \<open>The three representations of the selection example.\<close>

definition mk_rep :: "string \<Rightarrow> int \<Rightarrow> int \<Rightarrow> int \<Rightarrow> string \<Rightarrow> representation" where
  "mk_rep ty h w bw lang =
     \<lparr>rep_id = None, rep_type = ty, codec = None, bandwidth = bw, width = w, height = h,
      language = lang, init_url = None, segment_urls = []\<rparr>"

definition sel_example :: "representation list" where
  "sel_example =
     [mk_rep ''video'' 1080 1920 5000 '''',
      mk_rep ''video'' 1080 1920 3000 '''',
      mk_rep ''video'' 720 1280 8000 '''']"

text \<open>Two audio representations, for the audio-only case.\<close>

definition audio_example :: "representation list" where
  "audio_example = [mk_rep ''audio'' 0 0 64000 ''en'', mk_rep ''audio'' 0 0 128000 ''fr'']"

text \<open>A list where an audio representation has the highest bandwidth, and one with neither kind.\<close>

definition mixed_example :: "representation list" where
  "mixed_example =
     [mk_rep ''audio'' 0 0 9000000 ''en'',
      mk_rep ''video'' 360 640 800 '''',
      mk_rep ''text'' 0 0 100 ''en'']"

definition other_example :: "representation list" where
  "other_example = [mk_rep ''text'' 0 0 100 ''en'', mk_rep ''unknown'' 0 0 5 '''']"

section \<open>Strings\<close>

text \<open>
  A Python \<^verbatim>\<open>str\<close> is modelled as a list of code points below 256. \<^verbatim>\<open>str.lower\<close> maps the
  upper-case letters of that range (A to Z, and the Latin-1 letters 192 to 214 and 216 to
  222) to the code point 32 above, which sets the sixth bit, and leaves every other code
  point as it is.
\<close>

definition is_upper :: "char \<Rightarrow> bool" where
  "is_upper c =
     (let n = (of_char c :: nat)
      in (65 \<le> n \<and> n \<le> 90) \<or> (192 \<le> n \<and> n \<le> 214) \<or> (216 \<le> n \<and> n \<le> 222))"

fun lower_char :: "char \<Rightarrow> char" where
  "lower_char (Char b0 b1 b2 b3 b4 b5 b6 b7) =
     (if is_upper (Char b0 b1 b2 b3 b4 b5 b6 b7) then Char b0 b1 b2 b3 b4 True b6 b7
      else Char b0 b1 b2 b3 b4 b5 b6 b7)"

definition lower :: "string \<Rightarrow> string" where
  "lower s = map lower_char s"

section \<open>Audio selection: \<^verbatim>\<open>MPDParser.select_audio\<close>\<close>

text \<open>\<^verbatim>\<open>get_audios\<close>: the representations of type \<^verbatim>\<open>audio\<close>, in parse order.\<close>

definition get_audios :: "representation list \<Rightarrow> representation list" where
  "get_audios representations = filter is_audio representations"

definition get_best_audio :: "representation list \<Rightarrow> representation option" where
  "get_best_audio representations =
     (case get_audios representations of
        [] \<Rightarrow> None
      | a # as \<Rightarrow> Some (max_from bandwidth a as))"

text \<open>\<^verbatim>\<open>rep['language'] or "None"\<close>: an empty language reads as the string \<^verbatim>\<open>None\<close>.\<close>

definition lang_or_none :: "representation \<Rightarrow> string" where
  "lang_or_none rep = (if language rep = [] then ''None'' else language rep)"

definition lang_matches :: "representation \<Rightarrow> string \<Rightarrow> bool" where
  "lang_matches rep lang = (lower (lang_or_none rep) = lower lang)"

text \<open>The inner loop: the first audio representation that matches \<open>lang\<close>.\<close>

fun find_lang :: "representation list \<Rightarrow> string \<Rightarrow> representation option" where
  "find_lang [] lang = None"
| "find_lang (rep # reps) lang =
     (if lang_matches rep lang then Some rep else find_lang reps lang)"

text \<open>
  The outer loop: the preferences in order, leaving at the first one for which the inner
  loop selected a representation (a representation dictionary is never empty, so
  \<^verbatim>\<open>if selected_audio\<close> holds exactly when one was selected).
\<close>

fun scan_langs :: "representation list \<Rightarrow> string list \<Rightarrow> (representation \<times> string) option" where
  "scan_langs audio_reps [] = None"
| "scan_langs audio_reps (lang # langs) =
     (case find_lang audio_reps lang of
        Some rep \<Rightarrow> Some (rep, lang)
      | None \<Rightarrow> scan_langs audio_reps langs)"

text \<open>
  The result is the tuple \<^verbatim>\<open>(selected_audio, list_available_audio_langs,
  filter_custom_audio, downloadable_audio)\<close>. \<^verbatim>\<open>preferred_audio_langs\<close> is \<^verbatim>\<open>None\<close> or a
  list; \<^verbatim>\<open>None\<close> and the empty list both take the \<^verbatim>\<open>else\<close> branch.
\<close>

definition select_audio ::
  "representation list \<Rightarrow> string list option \<Rightarrow>
   representation option \<times> string list \<times> string \<times> string" where
  "select_audio representations preferred_audio_langs =
     (let audio_reps = get_audios representations;
          list_available_audio_langs = map lang_or_none audio_reps;
          (selected_audio, filter_custom_audio) =
            (case preferred_audio_langs of
               None \<Rightarrow> (get_best_audio representations, ''First'')
             | Some [] \<Rightarrow> (get_best_audio representations, ''First'')
             | Some (l # ls) \<Rightarrow>
                 (case scan_langs audio_reps (l # ls) of
                    Some (rep, lang) \<Rightarrow> (Some rep, lang)
                  | None \<Rightarrow> (get_best_audio representations, ''First'')));
          downloadable_audio =
            (case selected_audio of Some rep \<Rightarrow> lang_or_none rep | None \<Rightarrow> ''N/A'')
      in (selected_audio, list_available_audio_langs, filter_custom_audio, downloadable_audio))"

text \<open>The specification's reading of a match: the language tag itself, compared without case.\<close>

definition tag_matches :: "representation \<Rightarrow> string \<Rightarrow> bool" where
  "tag_matches rep lang = (lower (language rep) = lower lang)"

text \<open>Representations for the language examples.\<close>

definition lang_example :: "representation list" where
  "lang_example = [mk_rep ''audio'' 0 0 64000 ''en'', mk_rep ''audio'' 0 0 128000 ''fr'']"

definition untagged_example :: "representation list" where
  "untagged_example = [mk_rep ''audio'' 0 0 64000 '''', mk_rep ''audio'' 0 0 128000 ''en'']"

section \<open>Exceptions, console output and the XML tree\<close>

text \<open>
  The exceptions that the modelled code can raise or let through: \<^verbatim>\<open>ValueError\<close> from
  \<^verbatim>\<open>int\<close>, \<^verbatim>\<open>SyntaxError\<close> from an ElementPath lookup with an unregistered prefix,
  \<^verbatim>\<open>AttributeError\<close> from reading an attribute of \<^verbatim>\<open>None\<close>, and the three failures of a
  manifest request: the transport error of \<^verbatim>\<open>requests.get\<close>, the \<^verbatim>\<open>HTTPError\<close> of
  \<^verbatim>\<open>raise_for_status\<close> and the \<^verbatim>\<open>ParseError\<close> of \<^verbatim>\<open>ET.fromstring\<close>.
\<close>

datatype py_error =
    ValueError
  | SyntaxError
  | AttributeError
  | RequestsError
  | HTTPError
  | XMLParseError

text \<open>What the module prints on the console, one constructor per message of the source.\<close>

datatype console_msg =
    Retrying nat int
  | PSSH_not_found

text \<open>
  An \<^verbatim>\<open>xml.etree.ElementTree.Element\<close>: its tag (\<^verbatim>\<open>{uri}local\<close> when namespaced), its
  attributes, its text (\<^verbatim>\<open>None\<close> when the element has no text) and its children in
  document order.
\<close>

datatype element =
  Element (tag: string) (attrib: "(string \<times> string) list") (elem_text: "string option")
    (children: "element list")

text \<open>The fields that \<^verbatim>\<open>MPDParser.__init__\<close> sets.\<close>

record mpd_parser =
  mpd_url :: string
  pssh :: "string option"
  representations :: "representation list"
  ns :: "string \<rightharpoonup> string"
  root :: "element option"

definition new_parser :: "string \<Rightarrow> mpd_parser" where
  "new_parser url =
     \<lparr>mpd_url = url, pssh = None, representations = [], ns = Map.empty, root = None\<rparr>"

section \<open>Fetching the manifest: \<^verbatim>\<open>MPDParser._fetch_and_parse_mpd\<close>\<close>

text \<open>
  One pass through the \<^verbatim>\<open>try\<close> block makes one request. Its outcome is the exception of
  the first of the three calls that raises, or the root element that \<^verbatim>\<open>ET.fromstring\<close>
  returns. The network is a function from the number of the attempt to its outcome.
\<close>

datatype attempt =
    Transport_failure
  | Bad_status
  | Malformed_body
  | Document element

fun error_of :: "attempt \<Rightarrow> py_error" where
  "error_of Transport_failure = RequestsError"
| "error_of Bad_status = HTTPError"
| "error_of Malformed_body = XMLParseError"
| "error_of (Document r) = XMLParseError"

fun failed :: "attempt \<Rightarrow> bool" where
  "failed (Document r) = False"
| "failed a = True"

text \<open>
  The loop \<^verbatim>\<open>for attempt in range(max_retry + 1)\<close>, over the attempts still to make. A
  success stores the root and leaves the loop; \<^verbatim>\<open>except Exception\<close> catches the exception
  of any of the three calls, re-raises it when \<^verbatim>\<open>attempt == max_retry\<close> and prints the retry
  message otherwise. The result is paired with the console output.
\<close>

fun fetch_attempts ::
  "(nat \<Rightarrow> attempt) \<Rightarrow> int \<Rightarrow> nat list \<Rightarrow> mpd_parser \<Rightarrow> console_msg list \<Rightarrow>
   (py_error + mpd_parser) \<times> console_msg list" where
  "fetch_attempts net max_retry [] p out = (Inr p, out)"
| "fetch_attempts net max_retry (a # as) p out =
     (case net a of
        Document r \<Rightarrow> (Inr (p\<lparr>root := Some r\<rparr>), out)
      | _ \<Rightarrow>
          if int a = max_retry then (Inl (error_of (net a)), out)
          else fetch_attempts net max_retry as p (out @ [Retrying (a + 1) max_retry]))"

definition fetch_and_parse_mpd ::
  "(nat \<Rightarrow> attempt) \<Rightarrow> int \<Rightarrow> mpd_parser \<Rightarrow> (py_error + mpd_parser) \<times> console_msg list" where
  "fetch_and_parse_mpd net max_retry p =
     fetch_attempts net max_retry [0 ..< nat (max_retry + 1)] p []"

text \<open>A network whose first answer is a body that is not XML and whose second is a manifest.\<close>

definition tiny_mpd :: element where
  "tiny_mpd = Element ''{urn:mpeg:dash:schema:mpd:2011}MPD'' [] None []"

definition net_malformed_then_ok :: "nat \<Rightarrow> attempt" where
  "net_malformed_then_ok i = (if i = 0 then Malformed_body else Document tiny_mpd)"

definition net_flaky :: "nat \<Rightarrow> attempt" where
  "net_flaky i = (if i = 0 then Transport_failure else Document tiny_mpd)"

definition net_down :: "nat \<Rightarrow> attempt" where
  "net_down i = (if i = 2 then Bad_status else Transport_failure)"

section \<open>String operations of the Python library\<close>

text \<open>
  Decimal digits. Below code point 256 the ASCII digits are the only characters that the
  regular-expression class \<^verbatim>\<open>\d\<close> and \<^verbatim>\<open>int\<close> accept as digits.
\<close>

definition is_digit :: "char \<Rightarrow> bool" where
  "is_digit c = (let n = (of_char c :: nat) in 48 \<le> n \<and> n \<le> 57)"

definition digit_val :: "char \<Rightarrow> nat" where
  "digit_val c = of_char c - 48"

definition digit_char :: "nat \<Rightarrow> char" where
  "digit_char d = ''0123456789'' ! d"

text \<open>
  \<^verbatim>\<open>str\<close> of an integer: its decimal digits without leading zeros, after a minus sign when
  it is negative. (The interpreter's configurable limit on the number of digits of such
  conversions, 4300 by default, is outside the model.)
\<close>

fun str_nat :: "nat \<Rightarrow> string" where
  "str_nat n = (if n < 10 then [digit_char n] else str_nat (n div 10) @ [digit_char (n mod 10)])"

declare str_nat.simps [simp del]

definition str_int :: "int \<Rightarrow> string" where
  "str_int i = (if i < 0 then CHR ''-'' # str_nat (nat (- i)) else str_nat (nat i))"

text \<open>\<^verbatim>\<open>s.startswith(p)\<close> and \<^verbatim>\<open>sub in s\<close>.\<close>

fun startswith :: "string \<Rightarrow> string \<Rightarrow> bool" where
  "startswith s [] = True"
| "startswith [] (p # ps) = False"
| "startswith (c # cs) (p # ps) = (c = p \<and> startswith cs ps)"

fun contains :: "string \<Rightarrow> string \<Rightarrow> bool" where
  "contains sub [] = (sub = [])"
| "contains sub (c # cs) = (startswith (c # cs) sub \<or> contains sub cs)"

text \<open>
  \<^verbatim>\<open>s.replace(old, new)\<close>: the occurrences of \<open>old\<close> are replaced from left to right without
  overlap; an empty \<open>old\<close> matches before every character and at the end.
\<close>

function py_replace :: "string \<Rightarrow> string \<Rightarrow> string \<Rightarrow> string" where
  "py_replace s old new =
     (if old = [] then new @ concat (map (\<lambda>c. c # new) s)
      else if s = [] then []
      else if startswith s old then new @ py_replace (drop (length old) s) old new
      else hd s # py_replace (tl s) old new)"
  by pat_completeness auto
termination
  by (relation "measure (\<lambda>(s, old, new). length s)") auto

declare py_replace.simps [simp del]

text \<open>
  \<^verbatim>\<open>s.split(sep, 1)\<close> for a one-character separator: the part before the first separator,
  and the part after it when there is one (the list has two items), else nothing (the list
  has one item).
\<close>

definition split_once :: "char \<Rightarrow> string \<Rightarrow> string \<times> string option" where
  "split_once sep s =
     (takeWhile (\<lambda>c. c \<noteq> sep) s,
      if sep \<in> set s then Some (tl (dropWhile (\<lambda>c. c \<noteq> sep) s)) else None)"

text \<open>
  \<^verbatim>\<open>s.zfill(width)\<close>: zeros are added on the left up to the width, after a leading sign if
  there is one.
\<close>

definition zfill :: "string \<Rightarrow> nat \<Rightarrow> string" where
  "zfill s w =
     (if w \<le> length s then s
      else if s \<noteq> [] \<and> (hd s = CHR ''+'' \<or> hd s = CHR ''-'')
        then hd s # replicate (w - length s) CHR ''0'' @ tl s
      else replicate (w - length s) CHR ''0'' @ s)"

text \<open>\<^verbatim>\<open>int\<close> of a string of decimal digits, as in \<^verbatim>\<open>int(m.group(1))\<close>.\<close>

definition digits_to_nat :: "string \<Rightarrow> nat" where
  "digits_to_nat ds = foldl (\<lambda>a c. 10 * a + digit_val c) 0 ds"

section \<open>URL templates: \<^verbatim>\<open>URLBuilder\<close>\<close>

text \<open>
  The regular expression \<^verbatim>\<open>\$Number(\%0\d+d)?\$\<close> matched at the start of a string. The
  result is the digits of the optional group (\<^verbatim>\<open>None\<close> when the group did not take part)
  and the rest of the string after the match. The digits are taken greedily and must be
  followed by \<^verbatim>\<open>d\<close>; when the group matches but no \<^verbatim>\<open>$\<close> follows, the expression is tried
  again without the group.
\<close>

definition strip_prefix :: "string \<Rightarrow> string \<Rightarrow> string option" where
  "strip_prefix p s = (if startswith s p then Some (drop (length p) s) else None)"

definition match_format :: "string \<Rightarrow> (string \<times> string) option" where
  "match_format s =
     (case strip_prefix ''%0'' s of
        None \<Rightarrow> None
      | Some r \<Rightarrow>
          (let ds = takeWhile is_digit r; rest = dropWhile is_digit r
           in if ds \<noteq> [] \<and> startswith rest ''d'' then Some (ds, tl rest) else None))"

definition match_dollar :: "string \<Rightarrow> string option" where
  "match_dollar s = strip_prefix ''$'' s"

definition match_number :: "string \<Rightarrow> (string option \<times> string) option" where
  "match_number s =
     (case strip_prefix ''$Number'' s of
        None \<Rightarrow> None
      | Some r \<Rightarrow>
          (case match_format r of
             Some (ds, r') \<Rightarrow>
               (case match_dollar r' of
                  Some rest \<Rightarrow> Some (Some ds, rest)
                | None \<Rightarrow> map_option (Pair None) (match_dollar r))
           | None \<Rightarrow> map_option (Pair None) (match_dollar r)))"

text \<open>
  \<^verbatim>\<open>_replace_number_match\<close>: the replacement for one match. The group, when present, is
  \<^verbatim>\<open>%0\<close>, digits, \<^verbatim>\<open>d\<close>, so the inner \<^verbatim>\<open>re.match\<close> succeeds and the width is the number
  that the digits spell.
\<close>

definition replace_number_match :: "int option \<Rightarrow> string option \<Rightarrow> string" where
  "replace_number_match number fmt =
     (let num = (case number of Some n \<Rightarrow> n | None \<Rightarrow> 0)
      in case fmt of
           Some ds \<Rightarrow> zfill (str_int num) (digits_to_nat ds)
         | None \<Rightarrow> str_int num)"

lemma startswith_length: "startswith s p \<Longrightarrow> length p \<le> length s"
  by (induction s p rule: startswith.induct) auto

lemma strip_prefix_length:
  "strip_prefix p s = Some r \<Longrightarrow> length r = length s - length p"
  by (auto simp: strip_prefix_def split: if_splits)

lemma match_number_shorter:
  assumes "match_number s = Some (fmt, rest)"
  shows "length rest < length s"
proof -
  from assms obtain r where r: "strip_prefix ''$Number'' s = Some r"
    by (auto simp: match_number_def split: option.splits)
  have sw: "startswith s ''$Number''" using r by (auto simp: strip_prefix_def split: if_splits)
  then have "7 \<le> length s" using startswith_length [of s "''$Number''"] by simp
  with strip_prefix_length [OF r] have lr: "length r < length s" by simp
  have dollar: "\<And>x y. match_dollar x = Some y \<Longrightarrow> length y \<le> length x"
    using strip_prefix_length by (auto simp: match_dollar_def)
  have fmtl: "\<And>x ds y. match_format x = Some (ds, y) \<Longrightarrow> length y \<le> length x"
  proof -
    fix x ds y
    assume "match_format x = Some (ds, y)"
    then obtain q where q: "strip_prefix ''%0'' x = Some q"
      and y: "y = tl (dropWhile is_digit q)"
      by (auto simp: match_format_def Let_def split: option.splits if_splits)
    have "length (dropWhile is_digit q) \<le> length q" by (rule length_dropWhile_le)
    with strip_prefix_length [OF q] y show "length y \<le> length x" by simp
  qed
  from assms r have "length rest \<le> length r"
    by (auto simp: match_number_def split: option.splits dest!: dollar fmtl)
  with lr show ?thesis by simp
qed

text \<open>
  \<^verbatim>\<open>_replace_number\<close>, that is \<^verbatim>\<open>re.sub\<close> with this expression: the string is scanned from
  the left; at a match the replacement is written and the scan goes on after the match,
  elsewhere the character is kept.
\<close>

function replace_number :: "string \<Rightarrow> int option \<Rightarrow> string" where
  "replace_number [] number = []"
| "replace_number (c # cs) number =
     (case match_number (c # cs) of
        Some (fmt, rest) \<Rightarrow> replace_number_match number fmt @ replace_number rest number
      | None \<Rightarrow> c # replace_number cs number)"
  by pat_completeness auto
termination
  by (relation "measure (\<lambda>(s, number). length s)") (auto dest: match_number_shorter)

declare replace_number.simps [simp del]

text \<open>
  \<^verbatim>\<open>_finalize_url\<close>. \<^verbatim>\<open>urllib.parse.urljoin\<close> is a function of the standard library; it
  is a parameter of the model, so that what is proved holds whatever it returns.
\<close>

definition finalize_url :: "(string \<Rightarrow> string \<Rightarrow> string) \<Rightarrow> string \<Rightarrow> string \<Rightarrow> string" where
  "finalize_url urljoin base template =
     (let (path_and_query, after_hash) = split_once CHR ''#'' template;
          frag = (case after_hash of Some f \<Rightarrow> CHR ''#'' # f | None \<Rightarrow> [])
      in if CHR ''?'' \<in> set path_and_query
         then (let path_part = fst (split_once CHR ''?'' path_and_query);
                   query_part = (case snd (split_once CHR ''?'' path_and_query) of
                                   Some q \<Rightarrow> q | None \<Rightarrow> []);
                   abs_path = urljoin base path_part
               in abs_path @ ''?'' @ query_part @ frag)
         else (let abs_path = urljoin base path_and_query
               in abs_path @ frag))"

text \<open>
  \<^verbatim>\<open>build_url\<close>. The template, the representation id \<open>rid\<close>, the number, the time and
  the bandwidth \<open>bw\<close> may each be \<^verbatim>\<open>None\<close>; the result is \<^verbatim>\<open>None\<close> for a template that is \<^verbatim>\<open>None\<close> or
  empty.
\<close>

definition build_url ::
  "(string \<Rightarrow> string \<Rightarrow> string) \<Rightarrow> string \<Rightarrow> string option \<Rightarrow> string option \<Rightarrow> int option \<Rightarrow>
   int option \<Rightarrow> int option \<Rightarrow> string option" where
  "build_url urljoin base template rid number time bw =
     (case template of
        None \<Rightarrow> None
      | Some t0 \<Rightarrow>
          if t0 = [] then None
          else
            (let t1 = (case rid of
                         Some r \<Rightarrow> py_replace t0 ''$RepresentationID$'' r | None \<Rightarrow> t0);
                 t2 = (case bw of
                         Some b \<Rightarrow> py_replace t1 ''$Bandwidth$'' (str_int b) | None \<Rightarrow> t1);
                 t3 = replace_number t2 number;
                 t4 = (case time of
                         Some tm \<Rightarrow>
                           if contains ''$Time$'' t3 then py_replace t3 ''$Time$'' (str_int tm)
                           else t3
                       | None \<Rightarrow> t3)
             in Some (finalize_url urljoin base t4)))"

text \<open>A stand-in for \<^verbatim>\<open>urljoin\<close> in evaluations: it agrees with \<^verbatim>\<open>urljoin\<close> when the base
  ends in a slash and the reference is a plain relative path.\<close>

definition join_plain :: "string \<Rightarrow> string \<Rightarrow> string" where
  "join_plain base ref = base @ ref"

section \<open>Exceptions as values\<close>

text \<open>Sequencing of computations that may raise: the first exception is the result.\<close>

definition err_bind :: "py_error + 'a \<Rightarrow> ('a \<Rightarrow> py_error + 'b) \<Rightarrow> py_error + 'b" where
  "err_bind m f = (case m of Inl e \<Rightarrow> Inl e | Inr x \<Rightarrow> f x)"

section \<open>\<^verbatim>\<open>int\<close> of a string\<close>

text \<open>
  White space below code point 256 as \<^verbatim>\<open>str.strip\<close> sees it: the code points 9 to 13,
  28 to 32, 133 and 160.
\<close>

definition is_space :: "char \<Rightarrow> bool" where
  "is_space c =
     (let n = (of_char c :: nat)
      in (9 \<le> n \<and> n \<le> 13) \<or> (28 \<le> n \<and> n \<le> 32) \<or> n = 133 \<or> n = 160)"

definition strip :: "string \<Rightarrow> string" where
  "strip s = rev (dropWhile is_space (rev (dropWhile is_space s)))"

text \<open>
  White space as \<^verbatim>\<open>int\<close> passes over it around the number: the code points 9 to 13 and 32,
  and the white space outside ASCII, 133 and 160, which the conversion first turns into
  blanks. The separators 28 to 31 are not passed over, although \<^verbatim>\<open>str.strip\<close> removes them.
\<close>

definition is_int_space :: "char \<Rightarrow> bool" where
  "is_int_space c =
     (let n = (of_char c :: nat)
      in (9 \<le> n \<and> n \<le> 13) \<or> n = 32 \<or> n = 133 \<or> n = 160)"

definition int_strip :: "string \<Rightarrow> string" where
  "int_strip s = rev (dropWhile is_int_space (rev (dropWhile is_int_space s)))"

text \<open>
  \<^verbatim>\<open>int(s)\<close> for a string: the white space around the number is passed over, one sign may
  lead, and the rest must be decimal digits, where single underscores may stand between
  digits. Anything else raises \<^verbatim>\<open>ValueError\<close>. \<open>parse_digits\<close> reads on after a first digit.
\<close>

fun parse_digits :: "nat \<Rightarrow> string \<Rightarrow> nat option" where
  "parse_digits acc [] = Some acc"
| "parse_digits acc [c] = (if is_digit c then Some (10 * acc + digit_val c) else None)"
| "parse_digits acc (c # d # ds) =
     (if is_digit c then parse_digits (10 * acc + digit_val c) (d # ds)
      else if c = CHR ''_'' \<and> is_digit d then parse_digits (10 * acc + digit_val d) ds
      else None)"

definition parse_nat :: "string \<Rightarrow> nat option" where
  "parse_nat s =
     (case s of
        [] \<Rightarrow> None
      | c # cs \<Rightarrow> if is_digit c then parse_digits (digit_val c) cs else None)"

definition py_int :: "string \<Rightarrow> py_error + int" where
  "py_int s =
     (let t = int_strip s;
          (negative, body) =
            (if startswith t ''-'' then (True, tl t)
             else if startswith t ''+'' then (False, tl t)
             else (False, t))
      in case parse_nat body of
           None \<Rightarrow> Inl ValueError
         | Some n \<Rightarrow> Inr (if negative then - int n else int n))"

section \<open>Lookups in the XML tree\<close>

text \<open>\<^verbatim>\<open>elem.get(key)\<close>: the value of an attribute, \<^verbatim>\<open>None\<close> when it is absent.\<close>

definition get_attr :: "element \<Rightarrow> string \<Rightarrow> string option" where
  "get_attr e key = map_of (attrib e) key"

text \<open>
  \<^verbatim>\<open>find\<close> and \<^verbatim>\<open>findall\<close> are given a path \<^verbatim>\<open>prefix:name\<close> (or \<^verbatim>\<open>.//prefix:name\<close>) and the
  namespace dictionary. ElementPath replaces the prefix by its URI, giving the pattern
  \<^verbatim>\<open>{uri}name\<close>, and raises \<^verbatim>\<open>SyntaxError\<close> when the dictionary has no entry for the prefix
  (an empty dictionary included).
\<close>

definition resolve_tag :: "(string \<rightharpoonup> string) \<Rightarrow> string \<Rightarrow> string \<Rightarrow> py_error + string" where
  "resolve_tag nsmap prefix name =
     (case nsmap prefix of
        None \<Rightarrow> Inl SyntaxError
      | Some uri \<Rightarrow> Inr (''{'' @ uri @ ''}'' @ name))"

text \<open>
  Whether a pattern selects an element's tag. The pattern is compared with the tag, with
  the two special forms of ElementPath: a pattern \<^verbatim>\<open>{*}name\<close> selects the name in any
  namespace or in none, and a pattern \<^verbatim>\<open>{}name\<close> stands for the name without namespace.
\<close>

definition endswith :: "string \<Rightarrow> string \<Rightarrow> bool" where
  "endswith s suffix = startswith (rev s) (rev suffix)"

definition tag_selected :: "string \<Rightarrow> string \<Rightarrow> bool" where
  "tag_selected pattern t =
     (if startswith pattern ''{*}'' then t = drop 3 pattern \<or> endswith t (drop 2 pattern)
      else if startswith pattern ''{}'' then t = drop 2 pattern
      else t = pattern)"

text \<open>The descendants of an element in document order, the element itself left out.\<close>

fun descendants :: "element \<Rightarrow> element list" where
  "descendants (Element t a x cs) = concat (map (\<lambda>c. c # descendants c) cs)"

text \<open>\<^verbatim>\<open>elem.findall('prefix:name', ns)\<close>, \<^verbatim>\<open>elem.find('prefix:name', ns)\<close> and
  \<^verbatim>\<open>elem.findall('.//prefix:name', ns)\<close>.\<close>

definition findall_children ::
  "(string \<rightharpoonup> string) \<Rightarrow> string \<Rightarrow> string \<Rightarrow> element \<Rightarrow> py_error + element list" where
  "findall_children nsmap prefix name e =
     err_bind (resolve_tag nsmap prefix name)
       (\<lambda>pattern. Inr (filter (\<lambda>c. tag_selected pattern (tag c)) (children e)))"

definition find_child ::
  "(string \<rightharpoonup> string) \<Rightarrow> string \<Rightarrow> string \<Rightarrow> element \<Rightarrow> py_error + element option" where
  "find_child nsmap prefix name e =
     err_bind (findall_children nsmap prefix name e)
       (\<lambda>found. Inr (case found of [] \<Rightarrow> None | c # cs \<Rightarrow> Some c))"

definition findall_descendants ::
  "(string \<rightharpoonup> string) \<Rightarrow> string \<Rightarrow> string \<Rightarrow> element \<Rightarrow> py_error + element list" where
  "findall_descendants nsmap prefix name e =
     err_bind (resolve_tag nsmap prefix name)
       (\<lambda>pattern. Inr (filter (\<lambda>c. tag_selected pattern (tag c)) (descendants e)))"

section \<open>The segment timeline: \<^verbatim>\<open>SegmentTimelineParser.parse\<close>\<close>

text \<open>The variables of the loop.\<close>

record timeline_state =
  number_list :: "int list"
  time_list :: "int list"
  current_time :: "int option"
  start_number :: int

definition timeline_init :: timeline_state where
  "timeline_init = \<lparr>number_list = [], time_list = [], current_time = None, start_number = 1\<rparr>"

text \<open>
  The inner loop \<^verbatim>\<open>for i in range(r + 1)\<close>, given the number of rounds still to run and
  the current time, which is an integer by then.
\<close>

fun emit_run :: "nat \<Rightarrow> int \<Rightarrow> int list \<times> int list \<times> int \<times> int \<Rightarrow> int list \<times> int list \<times> int \<times> int" where
  "emit_run 0 d (nums, tms, sn, ct) = (nums, tms, sn, ct)"
| "emit_run (Suc k) d (nums, tms, sn, ct) =
     emit_run k d (nums @ [sn], tms @ [ct], sn + 1, ct + d)"

text \<open>\<^verbatim>\<open>int(s_element.get('r', 0))\<close>.\<close>

definition repeat_count :: "element \<Rightarrow> py_error + int" where
  "repeat_count s = (case get_attr s ''r'' of None \<Rightarrow> Inr 0 | Some rs \<Rightarrow> py_int rs)"

text \<open>The time at which the run of an \<^verbatim>\<open>S\<close> element starts: its \<^verbatim>\<open>t\<close> attribute when it
  has one, else the current time, or 0 when there is none yet.\<close>

definition run_start :: "element \<Rightarrow> int option \<Rightarrow> py_error + int" where
  "run_start s ct =
     (case get_attr s ''t'' of
        Some ts \<Rightarrow> py_int ts
      | None \<Rightarrow> Inr (case ct of None \<Rightarrow> 0 | Some c \<Rightarrow> c))"

text \<open>One round of the outer loop. An element without \<^verbatim>\<open>d\<close> is passed over by
  \<^verbatim>\<open>continue\<close> before anything else is read.\<close>

definition parse_s :: "element \<Rightarrow> timeline_state \<Rightarrow> py_error + timeline_state" where
  "parse_s s st =
     (case get_attr s ''d'' of
        None \<Rightarrow> Inr st
      | Some ds \<Rightarrow>
          err_bind (py_int ds) (\<lambda>d.
          err_bind (repeat_count s) (\<lambda>r.
          err_bind (run_start s (current_time st)) (\<lambda>t0.
            (case emit_run (nat (r + 1)) d (number_list st, time_list st, start_number st, t0) of
               (nums, tms, sn, ct) \<Rightarrow>
                 Inr \<lparr>number_list = nums, time_list = tms, current_time = Some ct,
                      start_number = sn\<rparr>)))))"

fun parse_loop :: "element list \<Rightarrow> timeline_state \<Rightarrow> py_error + timeline_state" where
  "parse_loop [] st = Inr st"
| "parse_loop (s # ss) st = err_bind (parse_s s st) (parse_loop ss)"

definition timeline_parse ::
  "(string \<rightharpoonup> string) \<Rightarrow> element option \<Rightarrow> py_error + int list \<times> int list" where
  "timeline_parse nsmap seg_timeline_element =
     (case seg_timeline_element of
        None \<Rightarrow> Inr ([], [])
      | Some e \<Rightarrow>
          err_bind (findall_children nsmap ''mpd'' ''S'' e) (\<lambda>ss.
          err_bind (parse_loop ss timeline_init) (\<lambda>st.
            Inr (number_list st, time_list st))))"

text \<open>The namespaces of a DASH manifest and the timeline of the example.\<close>

definition dash_ns :: "string \<rightharpoonup> string" where
  "dash_ns = [''mpd'' \<mapsto> ''urn:mpeg:dash:schema:mpd:2011'', ''cenc'' \<mapsto> ''urn:mpeg:cenc:2013'']"

definition mpd_elem :: "string \<Rightarrow> (string \<times> string) list \<Rightarrow> element list \<Rightarrow> element" where
  "mpd_elem name attrs cs = Element (''{urn:mpeg:dash:schema:mpd:2011}'' @ name) attrs None cs"

definition timeline_example :: element where
  "timeline_example =
     mpd_elem ''SegmentTimeline'' []
       [mpd_elem ''S'' [(''d'', ''10''), (''r'', ''2''), (''t'', ''0'')] [],
        mpd_elem ''S'' [(''d'', ''5''), (''r'', ''0'')] []]"

text \<open>An \<^verbatim>\<open>S\<close> element that has no duration.\<close>

definition s_without_d :: element where
  "s_without_d = mpd_elem ''S'' [(''t'', ''500''), (''r'', ''3'')] []"

definition s_first :: element where
  "s_first = mpd_elem ''S'' [(''d'', ''10''), (''r'', ''2''), (''t'', ''0'')] []"

text \<open>An \<^verbatim>\<open>S\<close> element with a repeat count below \<open>-1\<close>.\<close>

definition s_negative :: element where
  "s_negative = mpd_elem ''S'' [(''d'', ''10''), (''r'', ''-3'')] []"

section \<open>Namespaces and the PSSH: \<^verbatim>\<open>_extract_namespace\<close> and \<^verbatim>\<open>_extract_pssh\<close>\<close>

text \<open>
  \<^verbatim>\<open>_extract_namespace\<close>. Both assignments stand under the test of the root tag. The URI is
  \<^verbatim>\<open>tag[1:].split('}')[0]\<close>, the tag after its first character up to the first closing
  brace. Reading the tag of a root that was never set raises \<^verbatim>\<open>AttributeError\<close>.
\<close>

definition cenc_uri :: string where
  "cenc_uri = ''urn:mpeg:cenc:2013''"

definition extract_namespace :: "mpd_parser \<Rightarrow> py_error + mpd_parser" where
  "extract_namespace p =
     (case root p of
        None \<Rightarrow> Inl AttributeError
      | Some r \<Rightarrow>
          if startswith (tag r) ''{''
          then (let uri = fst (split_once CHR ''}'' (tl (tag r)))
                in Inr (p\<lparr>ns := (ns p)(''mpd'' \<mapsto> uri, ''cenc'' \<mapsto> cenc_uri)\<rparr>))
          else Inr p)"

text \<open>
  The loop of \<^verbatim>\<open>_extract_pssh\<close> over the \<^verbatim>\<open>ContentProtection\<close> elements: the text of the
  first \<^verbatim>\<open>cenc:pssh\<close> child that has a text which is not empty.
\<close>

fun first_pssh :: "(string \<rightharpoonup> string) \<Rightarrow> element list \<Rightarrow> py_error + string option" where
  "first_pssh nsmap [] = Inr None"
| "first_pssh nsmap (protection # rest) =
     err_bind (find_child nsmap ''cenc'' ''pssh'' protection) (\<lambda>pssh_element.
       case pssh_element of
         None \<Rightarrow> first_pssh nsmap rest
       | Some e \<Rightarrow>
           (case elem_text e of
              None \<Rightarrow> first_pssh nsmap rest
            | Some t \<Rightarrow> if t = [] then first_pssh nsmap rest else Inr (Some t)))"

text \<open>
  \<^verbatim>\<open>_extract_pssh\<close>, with what it prints: the message when \<^verbatim>\<open>self.pssh\<close> is still \<^verbatim>\<open>None\<close> or
  empty after the loop.
\<close>

definition extract_pssh :: "mpd_parser \<Rightarrow> (py_error + mpd_parser) \<times> console_msg list" where
  "extract_pssh p =
     (case root p of
        None \<Rightarrow> (Inl AttributeError, [])
      | Some r \<Rightarrow>
          (case err_bind (findall_descendants (ns p) ''mpd'' ''ContentProtection'' r)
                  (first_pssh (ns p)) of
             Inl e \<Rightarrow> (Inl e, [])
           | Inr found \<Rightarrow>
               (let p' = (case found of Some t \<Rightarrow> p\<lparr>pssh := Some t\<rparr> | None \<Rightarrow> p)
                in (Inr p',
                    if pssh p' = None \<or> pssh p' = Some [] then [PSSH_not_found] else []))))"

text \<open>A manifest whose root has no namespace, one without protection and one with a PSSH.\<close>

definition plain_mpd :: element where
  "plain_mpd =
     Element ''MPD'' [] None
       [Element ''Period'' [] None [Element ''ContentProtection'' [] None []]]"

definition clear_mpd :: element where
  "clear_mpd = mpd_elem ''MPD'' [] [mpd_elem ''Period'' [] [mpd_elem ''AdaptationSet'' [] []]]"

definition protected_mpd :: element where
  "protected_mpd =
     mpd_elem ''MPD'' []
       [mpd_elem ''Period'' []
          [mpd_elem ''AdaptationSet'' []
             [mpd_elem ''ContentProtection'' [] [],
              mpd_elem ''ContentProtection'' []
                [Element ''{urn:mpeg:cenc:2013}pssh'' [] (Some ''AAAAbHBzc2g='') []]]]]"

definition parser_of :: "element \<Rightarrow> mpd_parser" where
  "parser_of r = (new_parser ''http://host/a/m.mpd'')\<lparr>root := Some r\<rparr>"

text \<open>A manifest whose \<^verbatim>\<open>ContentProtection\<close> elements carry no PSSH text: one without a
  \<^verbatim>\<open>pssh\<close> child, one whose \<^verbatim>\<open>pssh\<close> child has no text, one whose \<^verbatim>\<open>pssh\<close> child has an
  empty text.\<close>

definition empty_pssh_mpd :: element where
  "empty_pssh_mpd =
     mpd_elem ''MPD'' []
       [mpd_elem ''Period'' []
          [mpd_elem ''AdaptationSet'' []
             [mpd_elem ''ContentProtection'' [] [],
              mpd_elem ''ContentProtection'' []
                [Element ''{urn:mpeg:cenc:2013}pssh'' [] None []],
              mpd_elem ''ContentProtection'' []
                [Element ''{urn:mpeg:cenc:2013}pssh'' [] (Some []) []]]]]"

section \<open>Verified properties\<close>

subsection \<open>Selection\<close>

lemma max_from_mem: "max_from key b xs \<in> set (b # xs)"
  by (induction xs arbitrary: b) auto

lemma min_from_mem: "min_from key b xs \<in> set (b # xs)"
  by (induction xs arbitrary: b) auto

lemma max_from_ge_best: "key b \<le> key (max_from key b xs)"
proof (induction xs arbitrary: b)
  case Nil
  show ?case by simp
next
  case (Cons x xs)
  show ?case
  proof (cases "key b < key x")
    case True
    have "key x \<le> key (max_from key x xs)" by (rule Cons.IH)
    with True show ?thesis by simp
  next
    case False
    with Cons.IH [of b] show ?thesis by simp
  qed
qed

lemma max_from_upper: "y \<in> set (b # xs) \<Longrightarrow> key y \<le> key (max_from key b xs)"
proof (induction xs arbitrary: b)
  case Nil
  then show ?case by simp
next
  case (Cons x xs)
  let ?b' = "if key b < key x then x else b"
  have step: "max_from key b (x # xs) = max_from key ?b' xs" by simp
  have ge: "key ?b' \<le> key (max_from key ?b' xs)" by (rule max_from_ge_best)
  from Cons.prems consider "y = b" | "y = x" | "y \<in> set xs" by auto
  then show ?case
  proof cases
    case 1
    have "key b \<le> key ?b'" by auto
    with ge 1 step show ?thesis by (metis order_trans)
  next
    case 2
    have "key x \<le> key ?b'" by auto
    with ge 2 step show ?thesis by (metis order_trans)
  next
    case 3
    then have "y \<in> set (?b' # xs)" by simp
    from Cons.IH [OF this] step show ?thesis by simp
  qed
qed

lemma min_from_le_best: "key (min_from key b xs) \<le> key b"
proof (induction xs arbitrary: b)
  case Nil
  show ?case by simp
next
  case (Cons x xs)
  show ?case
  proof (cases "key x < key b")
    case True
    have "key (min_from key x xs) \<le> key x" by (rule Cons.IH)
    with True show ?thesis by simp
  next
    case False
    with Cons.IH [of b] show ?thesis by simp
  qed
qed

lemma min_from_lower: "y \<in> set (b # xs) \<Longrightarrow> key (min_from key b xs) \<le> key y"
proof (induction xs arbitrary: b)
  case Nil
  then show ?case by simp
next
  case (Cons x xs)
  let ?b' = "if key x < key b then x else b"
  have step: "min_from key b (x # xs) = min_from key ?b' xs" by simp
  have le: "key (min_from key ?b' xs) \<le> key ?b'" by (rule min_from_le_best)
  from Cons.prems consider "y = b" | "y = x" | "y \<in> set xs" by auto
  then show ?case
  proof cases
    case 1
    have "key ?b' \<le> key b" by auto
    with le 1 step show ?thesis by (metis order_trans)
  next
    case 2
    have "key ?b' \<le> key x" by auto
    with le 2 step show ?thesis by (metis order_trans)
  next
    case 3
    then have "y \<in> set (?b' # xs)" by simp
    from Cons.IH [OF this] step show ?thesis by simp
  qed
qed

lemma video_key_le_iff: "video_key a \<le> video_key b \<longleftrightarrow> hwb_le a b"
  by (auto simp: video_key_def hwb_le_def less_eq_prod_def)

lemma get_best_video_max:
  assumes "filter is_video reps = v # vs"
  shows "\<exists>b. get_best reps = Some b \<and> b \<in> set (filter is_video reps) \<and>
             (\<forall>x \<in> set (filter is_video reps). hwb_le x b)"
proof -
  let ?b = "max_from video_key v vs"
  have 1: "get_best reps = Some ?b" using assms by (simp add: get_best_def)
  have 2: "?b \<in> set (v # vs)" by (rule max_from_mem)
  have 3: "\<forall>x \<in> set (v # vs). hwb_le x ?b"
    using max_from_upper [of _ v vs video_key] by (simp add: video_key_le_iff)
  from 1 2 3 show ?thesis using assms by simp
qed

lemma get_worst_video_min:
  assumes "filter is_video reps = v # vs"
  shows "\<exists>w. get_worst reps = Some w \<and> w \<in> set (filter is_video reps) \<and>
             (\<forall>x \<in> set (filter is_video reps). hwb_le w x)"
proof -
  let ?w = "min_from video_key v vs"
  have 1: "get_worst reps = Some ?w" using assms by (simp add: get_worst_def)
  have 2: "?w \<in> set (v # vs)" by (rule min_from_mem)
  have 3: "\<forall>x \<in> set (v # vs). hwb_le ?w x"
    using min_from_lower [of _ v vs video_key] by (simp add: video_key_le_iff)
  from 1 2 3 show ?thesis using assms by simp
qed

lemma get_best_audio_max:
  assumes "filter is_video reps = []" and "filter is_audio reps = a # as"
  shows "\<exists>b. get_best reps = Some b \<and> b \<in> set (filter is_audio reps) \<and>
             (\<forall>x \<in> set (filter is_audio reps). bandwidth x \<le> bandwidth b)"
proof -
  let ?b = "max_from bandwidth a as"
  have 1: "get_best reps = Some ?b" using assms by (simp add: get_best_def)
  have 2: "?b \<in> set (a # as)" by (rule max_from_mem)
  have 3: "\<forall>x \<in> set (a # as). bandwidth x \<le> bandwidth ?b"
    using max_from_upper [of _ a as bandwidth] by simp
  from 1 2 3 show ?thesis using assms by simp
qed

lemma get_worst_audio_min:
  assumes "filter is_video reps = []" and "filter is_audio reps = a # as"
  shows "\<exists>w. get_worst reps = Some w \<and> w \<in> set (filter is_audio reps) \<and>
             (\<forall>x \<in> set (filter is_audio reps). bandwidth w \<le> bandwidth x)"
proof -
  let ?w = "min_from bandwidth a as"
  have 1: "get_worst reps = Some ?w" using assms by (simp add: get_worst_def)
  have 2: "?w \<in> set (a # as)" by (rule min_from_mem)
  have 3: "\<forall>x \<in> set (a # as). bandwidth ?w \<le> bandwidth x"
    using min_from_lower [of _ a as bandwidth] by simp
  from 1 2 3 show ?thesis using assms by simp
qed

lemma sel_example_best:
  "get_best sel_example = Some (mk_rep ''video'' 1080 1920 5000 '''')"
  by (simp add: get_best_def sel_example_def is_video_def mk_rep_def video_key_def less_prod_def)

lemma sel_example_worst:
  "get_worst sel_example = Some (mk_rep ''video'' 720 1280 8000 '''')"
  by (simp add: get_worst_def sel_example_def is_video_def mk_rep_def video_key_def less_prod_def)

text \<open>
  Claim C9. Among the video representations \<^verbatim>\<open>get_best\<close> returns one that is maximal, and
  \<^verbatim>\<open>get_worst\<close> one that is minimal, in the lexicographic order of (height, width,
  bandwidth); when there is no video representation the audio representations are ordered
  by bandwidth alone. On the three representations of the example \<^verbatim>\<open>get_best\<close> returns
  the first (1080p, bandwidth 5000) and \<^verbatim>\<open>get_worst\<close> the 720p one.
\<close>

theorem get_best_worst_order:
  "(filter is_video reps \<noteq> [] \<longrightarrow>
      (\<exists>b w. get_best reps = Some b \<and> get_worst reps = Some w \<and>
             b \<in> set (filter is_video reps) \<and> w \<in> set (filter is_video reps) \<and>
             (\<forall>x \<in> set (filter is_video reps). hwb_le x b \<and> hwb_le w x)))
   \<and> (filter is_video reps = [] \<and> filter is_audio reps \<noteq> [] \<longrightarrow>
      (\<exists>b w. get_best reps = Some b \<and> get_worst reps = Some w \<and>
             b \<in> set (filter is_audio reps) \<and> w \<in> set (filter is_audio reps) \<and>
             (\<forall>x \<in> set (filter is_audio reps).
                bandwidth x \<le> bandwidth b \<and> bandwidth w \<le> bandwidth x)))
   \<and> get_best sel_example = Some (mk_rep ''video'' 1080 1920 5000 '''')
   \<and> get_worst sel_example = Some (mk_rep ''video'' 720 1280 8000 '''')"
proof (intro conjI impI)
  assume "filter is_video reps \<noteq> []"
  then obtain v vs where vs: "filter is_video reps = v # vs" by (cases "filter is_video reps") auto
  from get_best_video_max [OF vs] get_worst_video_min [OF vs]
  show "\<exists>b w. get_best reps = Some b \<and> get_worst reps = Some w \<and>
             b \<in> set (filter is_video reps) \<and> w \<in> set (filter is_video reps) \<and>
             (\<forall>x \<in> set (filter is_video reps). hwb_le x b \<and> hwb_le w x)"
    by blast
next
  assume "filter is_video reps = [] \<and> filter is_audio reps \<noteq> []"
  then obtain a as where nv: "filter is_video reps = []" and as: "filter is_audio reps = a # as"
    by (cases "filter is_audio reps") auto
  from get_best_audio_max [OF nv as] get_worst_audio_min [OF nv as]
  show "\<exists>b w. get_best reps = Some b \<and> get_worst reps = Some w \<and>
             b \<in> set (filter is_audio reps) \<and> w \<in> set (filter is_audio reps) \<and>
             (\<forall>x \<in> set (filter is_audio reps).
                bandwidth x \<le> bandwidth b \<and> bandwidth w \<le> bandwidth x)"
    by blast
next
  show "get_best sel_example = Some (mk_rep ''video'' 1080 1920 5000 '''')"
    by (rule sel_example_best)
next
  show "get_worst sel_example = Some (mk_rep ''video'' 720 1280 8000 '''')"
    by (rule sel_example_worst)
qed


theorem get_best_worst_order_witness:
  "filter is_video sel_example \<noteq> []
   \<and> (\<exists>b w. get_best sel_example = Some b \<and> get_worst sel_example = Some w \<and>
          hwb_le (mk_rep ''video'' 1080 1920 3000 '''') b \<and>
          hwb_le w (mk_rep ''video'' 1080 1920 3000 ''''))
   \<and> filter is_video audio_example = [] \<and> filter is_audio audio_example \<noteq> []
   \<and> (\<exists>b w. get_best audio_example = Some b \<and> get_worst audio_example = Some w \<and>
          bandwidth (mk_rep ''audio'' 0 0 64000 ''en'') \<le> bandwidth b \<and>
          bandwidth w \<le> bandwidth (mk_rep ''audio'' 0 0 128000 ''fr''))"
proof -
  have v: "filter is_video sel_example \<noteq> []"
    by (simp add: sel_example_def is_video_def mk_rep_def)
  have m: "mk_rep ''video'' 1080 1920 3000 '''' \<in> set (filter is_video sel_example)"
    by (simp add: sel_example_def is_video_def mk_rep_def)
  have nv: "filter is_video audio_example = []"
    by (simp add: audio_example_def is_video_def mk_rep_def)
  have a: "filter is_audio audio_example \<noteq> []"
    by (simp add: audio_example_def is_audio_def mk_rep_def)
  have m1: "mk_rep ''audio'' 0 0 64000 ''en'' \<in> set (filter is_audio audio_example)"
    and m2: "mk_rep ''audio'' 0 0 128000 ''fr'' \<in> set (filter is_audio audio_example)"
    by (simp_all add: audio_example_def is_audio_def mk_rep_def)
  from get_best_worst_order [of sel_example] v m
  have 1: "\<exists>b w. get_best sel_example = Some b \<and> get_worst sel_example = Some w \<and>
          hwb_le (mk_rep ''video'' 1080 1920 3000 '''') b \<and>
          hwb_le w (mk_rep ''video'' 1080 1920 3000 '''')"
    by blast
  from get_best_worst_order [of audio_example] nv a m1 m2
  have 2: "\<exists>b w. get_best audio_example = Some b \<and> get_worst audio_example = Some w \<and>
          bandwidth (mk_rep ''audio'' 0 0 64000 ''en'') \<le> bandwidth b \<and>
          bandwidth w \<le> bandwidth (mk_rep ''audio'' 0 0 128000 ''fr'')"
    by blast
  from v 1 nv a 2 show ?thesis by blast
qed

lemma filter_video_members:
  assumes "filter is_video reps = v # vs" and "x \<in> set (v # vs)"
  shows "is_video x \<and> x \<in> set reps"
proof -
  have "x \<in> set (filter is_video reps)" using assms by simp
  then show ?thesis by simp
qed

lemma get_best_some_video:
  assumes "filter is_video reps = v # vs"
  shows "\<exists>b. get_best reps = Some b \<and> is_video b \<and> b \<in> set reps"
proof -
  have m: "max_from video_key v vs \<in> set (v # vs)" by (rule max_from_mem)
  have g: "get_best reps = Some (max_from video_key v vs)"
    using assms by (simp add: get_best_def)
  from filter_video_members [OF assms m] g show ?thesis by blast
qed

lemma get_worst_some_video:
  assumes "filter is_video reps = v # vs"
  shows "\<exists>w. get_worst reps = Some w \<and> is_video w \<and> w \<in> set reps"
proof -
  have m: "min_from video_key v vs \<in> set (v # vs)" by (rule min_from_mem)
  have g: "get_worst reps = Some (min_from video_key v vs)"
    using assms by (simp add: get_worst_def)
  from filter_video_members [OF assms m] g show ?thesis by blast
qed

lemma get_best_of_videos:
  "filter is_video xs = v # vs \<Longrightarrow> get_best xs = Some (max_from video_key v vs)"
  by (simp add: get_best_def)

lemma get_worst_of_videos:
  "filter is_video xs = v # vs \<Longrightarrow> get_worst xs = Some (min_from video_key v vs)"
  by (simp add: get_worst_def)

lemma get_best_no_video:
  "filter is_video xs = [] \<Longrightarrow>
   get_best xs = (case filter is_audio xs of [] \<Rightarrow> None
                  | a # as \<Rightarrow> Some (max_from bandwidth a as))"
  by (simp add: get_best_def)

lemma get_worst_no_video:
  "filter is_video xs = [] \<Longrightarrow>
   get_worst xs = (case filter is_audio xs of [] \<Rightarrow> None
                   | a # as \<Rightarrow> Some (min_from bandwidth a as))"
  by (simp add: get_worst_def)

lemma filter_video_idem: "filter is_video (filter is_video reps) = filter is_video reps"
  by simp

lemma filter_audio_idem: "filter is_audio (filter is_audio reps) = filter is_audio reps"
  by simp

lemma is_audio_not_video: "is_audio r \<Longrightarrow> \<not> is_video r"
  by (simp add: is_audio_def is_video_def)

lemma filter_video_of_audio: "filter is_video (filter is_audio reps) = []"
  by (induction reps) (auto simp: is_audio_not_video)

lemma get_best_video_only:
  assumes "filter is_video reps = v # vs"
  shows "get_best reps = get_best (filter is_video reps)"
proof -
  have f: "filter is_video (filter is_video reps) = v # vs"
    by (rule trans [OF filter_video_idem assms])
  from get_best_of_videos [OF assms] get_best_of_videos [OF f] show ?thesis by simp
qed

lemma get_worst_video_only:
  assumes "filter is_video reps = v # vs"
  shows "get_worst reps = get_worst (filter is_video reps)"
proof -
  have f: "filter is_video (filter is_video reps) = v # vs"
    by (rule trans [OF filter_video_idem assms])
  from get_worst_of_videos [OF assms] get_worst_of_videos [OF f] show ?thesis by simp
qed

lemma get_best_audio_only:
  assumes "filter is_video reps = []"
  shows "get_best reps = get_best (filter is_audio reps)"
proof -
  have "get_best (filter is_audio reps) =
        (case filter is_audio (filter is_audio reps) of [] \<Rightarrow> None
         | a # as \<Rightarrow> Some (max_from bandwidth a as))"
    by (rule get_best_no_video [OF filter_video_of_audio])
  with get_best_no_video [OF assms] show ?thesis by (simp only: filter_audio_idem)
qed

lemma get_worst_audio_only:
  assumes "filter is_video reps = []"
  shows "get_worst reps = get_worst (filter is_audio reps)"
proof -
  have "get_worst (filter is_audio reps) =
        (case filter is_audio (filter is_audio reps) of [] \<Rightarrow> None
         | a # as \<Rightarrow> Some (min_from bandwidth a as))"
    by (rule get_worst_no_video [OF filter_video_of_audio])
  with get_worst_no_video [OF assms] show ?thesis by (simp only: filter_audio_idem)
qed

text \<open>
  Claim C10. When the list holds at least one representation of type \<^verbatim>\<open>video\<close>, both
  selectors give what they give on the video representations alone, and the result is a
  video representation of the list, whatever the audio representations are; without a
  video representation they give what they give on the audio representations alone; and
  with neither kind both return \<^verbatim>\<open>None\<close>.
\<close>

theorem get_best_worst_video_first:
  "((\<exists>r \<in> set reps. is_video r) \<longrightarrow>
      get_best reps = get_best (filter is_video reps) \<and>
      get_worst reps = get_worst (filter is_video reps) \<and>
      (\<exists>b w. get_best reps = Some b \<and> get_worst reps = Some w \<and>
             is_video b \<and> is_video w \<and> b \<in> set reps \<and> w \<in> set reps))
   \<and> (\<not> (\<exists>r \<in> set reps. is_video r) \<longrightarrow>
      get_best reps = get_best (filter is_audio reps) \<and>
      get_worst reps = get_worst (filter is_audio reps))
   \<and> ((\<forall>r \<in> set reps. \<not> is_video r \<and> \<not> is_audio r) \<longrightarrow>
      get_best reps = None \<and> get_worst reps = None)"
proof (intro conjI impI)
  assume "\<exists>r \<in> set reps. is_video r"
  then have "filter is_video reps \<noteq> []" by (simp add: filter_empty_conv)
  then obtain v vs where vs: "filter is_video reps = v # vs"
    by (cases "filter is_video reps") auto
  show "get_best reps = get_best (filter is_video reps)" by (rule get_best_video_only [OF vs])
  show "get_worst reps = get_worst (filter is_video reps)" by (rule get_worst_video_only [OF vs])
  from get_best_some_video [OF vs] get_worst_some_video [OF vs]
  show "\<exists>b w. get_best reps = Some b \<and> get_worst reps = Some w \<and>
             is_video b \<and> is_video w \<and> b \<in> set reps \<and> w \<in> set reps"
    by blast
next
  assume "\<not> (\<exists>r \<in> set reps. is_video r)"
  then have nv: "filter is_video reps = []" by (simp add: filter_empty_conv)
  show "get_best reps = get_best (filter is_audio reps)" by (rule get_best_audio_only [OF nv])
  show "get_worst reps = get_worst (filter is_audio reps)" by (rule get_worst_audio_only [OF nv])
next
  assume n: "\<forall>r \<in> set reps. \<not> is_video r \<and> \<not> is_audio r"
  then have nv: "filter is_video reps = []" and na: "filter is_audio reps = []"
    by (simp_all add: filter_empty_conv)
  show "get_best reps = None" using nv na by (simp add: get_best_def)
  show "get_worst reps = None" using nv na by (simp add: get_worst_def)
qed

theorem get_best_worst_video_first_witness:
  "(\<exists>r. r \<in> set mixed_example \<and> is_video r)
   \<and> get_best mixed_example = Some (mk_rep ''video'' 360 640 800 '''')
   \<and> get_worst mixed_example = Some (mk_rep ''video'' 360 640 800 '''')
   \<and> \<not> (\<exists>r. r \<in> set audio_example \<and> is_video r)
   \<and> get_best audio_example = Some (mk_rep ''audio'' 0 0 128000 ''fr'')
   \<and> get_worst audio_example = Some (mk_rep ''audio'' 0 0 64000 ''en'')
   \<and> \<not> (\<exists>r. r \<in> set other_example \<and> (is_video r \<or> is_audio r))
   \<and> get_best other_example = None \<and> get_worst other_example = None"
proof -
  have v: "\<exists>r \<in> set mixed_example. is_video r"
    by (simp add: mixed_example_def is_video_def mk_rep_def)
  have fv: "filter is_video mixed_example = [mk_rep ''video'' 360 640 800 '''']"
    by (simp add: mixed_example_def is_video_def mk_rep_def)
  have b1: "get_best [mk_rep ''video'' 360 640 800 ''''] = Some (mk_rep ''video'' 360 640 800 '''')"
    and w1: "get_worst [mk_rep ''video'' 360 640 800 ''''] = Some (mk_rep ''video'' 360 640 800 '''')"
    by (simp_all add: get_best_def get_worst_def is_video_def mk_rep_def)
  have nv: "\<not> (\<exists>r \<in> set audio_example. is_video r)"
    by (simp add: audio_example_def is_video_def mk_rep_def)
  have fa: "filter is_audio audio_example = audio_example"
    by (simp add: audio_example_def is_audio_def mk_rep_def)
  have b2: "get_best audio_example = Some (mk_rep ''audio'' 0 0 128000 ''fr'')"
    and w2: "get_worst audio_example = Some (mk_rep ''audio'' 0 0 64000 ''en'')"
    using get_best_worst_video_first [of audio_example] nv
    by (simp_all add: get_best_def get_worst_def audio_example_def is_video_def is_audio_def mk_rep_def)
  have no: "\<forall>r \<in> set other_example. \<not> is_video r \<and> \<not> is_audio r"
    by (simp add: other_example_def is_video_def is_audio_def mk_rep_def)
  from get_best_worst_video_first [of mixed_example] v fv b1 w1
  have 1: "get_best mixed_example = Some (mk_rep ''video'' 360 640 800 '''')
           \<and> get_worst mixed_example = Some (mk_rep ''video'' 360 640 800 '''')"
    by simp
  from get_best_worst_video_first [of other_example] no
  have 3: "get_best other_example = None \<and> get_worst other_example = None"
    by blast
  from v nv no 1 b2 w2 3 show ?thesis by blast
qed

subsection \<open>Audio language selection\<close>

lemma find_lang_None: "find_lang reps lang = None \<longleftrightarrow> (\<forall>r \<in> set reps. \<not> lang_matches r lang)"
  by (induction reps) auto

lemma find_lang_Some:
  "find_lang reps lang = Some rep \<Longrightarrow>
   \<exists>rpre rpost. reps = rpre @ rep # rpost \<and> lang_matches rep lang \<and>
                (\<forall>r \<in> set rpre. \<not> lang_matches r lang)"
proof (induction reps)
  case Nil
  then show ?case by simp
next
  case (Cons a reps)
  show ?case
  proof (cases "lang_matches a lang")
    case True
    with Cons.prems have "rep = a" by simp
    with True have "a # reps = [] @ rep # reps \<and> lang_matches rep lang \<and>
                    (\<forall>r \<in> set []. \<not> lang_matches r lang)" by simp
    then show ?thesis by blast
  next
    case False
    with Cons.prems have "find_lang reps lang = Some rep" by simp
    from Cons.IH [OF this] obtain rpre rpost where
      h: "reps = rpre @ rep # rpost" "lang_matches rep lang" "\<forall>r \<in> set rpre. \<not> lang_matches r lang"
      by blast
    with False have "a # reps = (a # rpre) @ rep # rpost \<and> lang_matches rep lang \<and>
                     (\<forall>r \<in> set (a # rpre). \<not> lang_matches r lang)" by simp
    then show ?thesis by blast
  qed
qed

lemma scan_langs_None:
  "scan_langs reps langs = None \<longleftrightarrow> (\<forall>l \<in> set langs. \<forall>r \<in> set reps. \<not> lang_matches r l)"
proof (induction langs)
  case Nil
  show ?case by simp
next
  case (Cons l langs)
  show ?case
  proof (cases "find_lang reps l")
    case None
    then have "\<forall>r \<in> set reps. \<not> lang_matches r l" by (simp add: find_lang_None)
    with None Cons.IH show ?thesis by simp
  next
    case (Some r)
    have "\<not> (\<forall>r \<in> set reps. \<not> lang_matches r l)"
      using find_lang_None [of reps l] Some by simp
    with Some show ?thesis by auto
  qed
qed

lemma scan_langs_Some:
  "scan_langs reps langs = Some (rep, lang) \<Longrightarrow>
   \<exists>pre post. langs = pre @ lang # post \<and>
              (\<forall>l \<in> set pre. \<forall>r \<in> set reps. \<not> lang_matches r l) \<and>
              find_lang reps lang = Some rep"
proof (induction langs)
  case Nil
  then show ?case by simp
next
  case (Cons l langs)
  show ?case
  proof (cases "find_lang reps l")
    case (Some r)
    with Cons.prems have "rep = r" "lang = l" by simp_all
    with Some have "l # langs = [] @ lang # langs \<and>
                    (\<forall>l \<in> set []. \<forall>r \<in> set reps. \<not> lang_matches r l) \<and>
                    find_lang reps lang = Some rep" by simp
    then show ?thesis by blast
  next
    case None
    with Cons.prems have "scan_langs reps langs = Some (rep, lang)" by simp
    from Cons.IH [OF this] obtain pre post where
      h: "langs = pre @ lang # post" "\<forall>l \<in> set pre. \<forall>r \<in> set reps. \<not> lang_matches r l"
         "find_lang reps lang = Some rep" by blast
    from None have "\<forall>r \<in> set reps. \<not> lang_matches r l" by (simp add: find_lang_None)
    with h have "l # langs = (l # pre) @ lang # post \<and>
                 (\<forall>l \<in> set (l # pre). \<forall>r \<in> set reps. \<not> lang_matches r l) \<and>
                 find_lang reps lang = Some rep" by simp
    then show ?thesis by blast
  qed
qed

lemma select_audio_scan_Some:
  "prefs \<noteq> [] \<Longrightarrow> scan_langs (get_audios reps) prefs = Some (rep, lang) \<Longrightarrow>
   fst (select_audio reps (Some prefs)) = Some rep"
  by (cases prefs) (simp_all add: select_audio_def Let_def)

lemma select_audio_scan_None:
  "scan_langs (get_audios reps) prefs = None \<Longrightarrow>
   fst (select_audio reps (Some prefs)) = get_best_audio reps"
  by (cases prefs) (simp_all add: select_audio_def Let_def)

lemma select_audio_no_prefs:
  "fst (select_audio reps None) = get_best_audio reps"
  "fst (select_audio reps (Some [])) = get_best_audio reps"
  by (simp_all add: select_audio_def Let_def)

lemma best_audio_is_max:
  assumes "get_audios reps = a # as"
  shows "\<exists>b. get_best_audio reps = Some b \<and> b \<in> set (get_audios reps) \<and>
             (\<forall>x \<in> set (get_audios reps). bandwidth x \<le> bandwidth b)"
proof -
  let ?b = "max_from bandwidth a as"
  have 1: "get_best_audio reps = Some ?b" using assms by (simp add: get_best_audio_def)
  have 2: "?b \<in> set (a # as)" by (rule max_from_mem)
  have 3: "\<forall>x \<in> set (a # as). bandwidth x \<le> bandwidth ?b"
    using max_from_upper [of _ a as bandwidth] by simp
  from 1 2 3 show ?thesis using assms by simp
qed

lemma select_audio_empty:
  assumes "get_audios reps = []"
  shows "fst (select_audio reps p) = None"
proof (cases p)
  case None
  then show ?thesis using assms by (simp add: select_audio_def Let_def get_best_audio_def)
next
  case (Some prefs)
  have "scan_langs [] prefs = None" by (simp add: scan_langs_None)
  with assms have "scan_langs (get_audios reps) prefs = None" by simp
  from select_audio_scan_None [OF this] Some assms show ?thesis
    by (simp add: get_best_audio_def)
qed


lemma lang_matches_tagged: "language r \<noteq> [] \<Longrightarrow> lang_matches r l = tag_matches r l"
  by (simp add: lang_matches_def tag_matches_def lang_or_none_def)

text \<open>
  Claim C5, as amended. The preference list is scanned in priority order and, for each
  preferred language, the audio representations in parse order; the first representation
  whose language, with an empty language read as the string \<^verbatim>\<open>None\<close>, equals the preferred
  tag without regard to case is selected (for a non-empty language that is the comparison of
  the tag itself). When no preference matches any audio representation, or no preference
  list is given, the audio representation of highest bandwidth is selected; without audio
  representations the selection is \<^verbatim>\<open>None\<close>.
\<close>

theorem select_audio_by_preference:
  "((\<exists>l \<in> set prefs. \<exists>r \<in> set (get_audios reps). lang_matches r l) \<longrightarrow>
      (\<exists>pre l post rpre r rpost.
          prefs = pre @ l # post \<and>
          (\<forall>l' \<in> set pre. \<forall>r' \<in> set (get_audios reps). \<not> lang_matches r' l') \<and>
          get_audios reps = rpre @ r # rpost \<and>
          (\<forall>r' \<in> set rpre. \<not> lang_matches r' l) \<and>
          lang_matches r l \<and>
          fst (select_audio reps (Some prefs)) = Some r))
   \<and> ((\<forall>l \<in> set prefs. \<forall>r \<in> set (get_audios reps). \<not> lang_matches r l) \<longrightarrow>
        fst (select_audio reps (Some prefs)) = get_best_audio reps)
   \<and> fst (select_audio reps None) = get_best_audio reps
   \<and> (get_audios reps \<noteq> [] \<longrightarrow>
        (\<exists>b. get_best_audio reps = Some b \<and> b \<in> set (get_audios reps) \<and>
             (\<forall>x \<in> set (get_audios reps). bandwidth x \<le> bandwidth b)))
   \<and> (get_audios reps = [] \<longrightarrow> fst (select_audio reps p) = None)
   \<and> (language r0 \<noteq> [] \<longrightarrow> lang_matches r0 l0 = tag_matches r0 l0)"
proof (intro conjI impI)
  assume ex: "\<exists>l \<in> set prefs. \<exists>r \<in> set (get_audios reps). lang_matches r l"
  then have ne: "prefs \<noteq> []" by auto
  from ex have "scan_langs (get_audios reps) prefs \<noteq> None" by (simp add: scan_langs_None)
  then obtain r l where sc: "scan_langs (get_audios reps) prefs = Some (r, l)" by auto
  from scan_langs_Some [OF sc] obtain pre post where
    p: "prefs = pre @ l # post"
       "\<forall>l' \<in> set pre. \<forall>r' \<in> set (get_audios reps). \<not> lang_matches r' l'"
       "find_lang (get_audios reps) l = Some r" by blast
  from find_lang_Some [OF p(3)] obtain rpre rpost where
    q: "get_audios reps = rpre @ r # rpost" "lang_matches r l"
       "\<forall>r' \<in> set rpre. \<not> lang_matches r' l" by blast
  have sel: "fst (select_audio reps (Some prefs)) = Some r"
    by (rule select_audio_scan_Some [OF ne sc])
  from p(1) p(2) q sel
  show "\<exists>pre l post rpre r rpost.
          prefs = pre @ l # post \<and>
          (\<forall>l' \<in> set pre. \<forall>r' \<in> set (get_audios reps). \<not> lang_matches r' l') \<and>
          get_audios reps = rpre @ r # rpost \<and>
          (\<forall>r' \<in> set rpre. \<not> lang_matches r' l) \<and>
          lang_matches r l \<and>
          fst (select_audio reps (Some prefs)) = Some r"
    by blast
next
  assume "\<forall>l \<in> set prefs. \<forall>r \<in> set (get_audios reps). \<not> lang_matches r l"
  then have "scan_langs (get_audios reps) prefs = None" by (simp add: scan_langs_None)
  then show "fst (select_audio reps (Some prefs)) = get_best_audio reps"
    by (rule select_audio_scan_None)
next
  show "fst (select_audio reps None) = get_best_audio reps" by (rule select_audio_no_prefs(1))
next
  assume "get_audios reps \<noteq> []"
  then obtain a as where "get_audios reps = a # as" by (cases "get_audios reps") auto
  then show "\<exists>b. get_best_audio reps = Some b \<and> b \<in> set (get_audios reps) \<and>
             (\<forall>x \<in> set (get_audios reps). bandwidth x \<le> bandwidth b)"
    by (rule best_audio_is_max)
next
  assume "get_audios reps = []"
  then show "fst (select_audio reps p) = None" by (rule select_audio_empty)
next
  assume "language r0 \<noteq> []"
  then show "lang_matches r0 l0 = tag_matches r0 l0" by (rule lang_matches_tagged)
qed

lemmas sel_audio_eval =
  select_audio_def get_audios_def get_best_audio_def is_audio_def mk_rep_def Let_def
  lang_matches_def lang_or_none_def tag_matches_def lower_def is_upper_def

theorem select_audio_by_preference_witness:
  "fst (select_audio lang_example (Some [''it'', ''en''])) = Some (mk_rep ''audio'' 0 0 64000 ''en'')
   \<and> lang_matches (mk_rep ''audio'' 0 0 64000 ''en'') ''en''
   \<and> fst (select_audio lang_example (Some [''it'', ''de''])) = Some (mk_rep ''audio'' 0 0 128000 ''fr'')
   \<and> fst (select_audio lang_example None) = Some (mk_rep ''audio'' 0 0 128000 ''fr'')
   \<and> get_audios lang_example \<noteq> []
   \<and> get_audios sel_example = []
   \<and> fst (select_audio sel_example (Some [''en''])) = None
   \<and> language (mk_rep ''audio'' 0 0 64000 ''en'') \<noteq> []
   \<and> tag_matches (mk_rep ''audio'' 0 0 64000 ''en'') ''EN''"
proof -
  have a: "get_audios lang_example =
             [mk_rep ''audio'' 0 0 64000 ''en'', mk_rep ''audio'' 0 0 128000 ''fr'']"
    by (simp add: lang_example_def get_audios_def is_audio_def mk_rep_def)
  have m: "lang_matches (mk_rep ''audio'' 0 0 64000 ''en'') ''en''"
    by (simp add: sel_audio_eval)
  have ex: "\<exists>l \<in> set [''it'', ''en'']. \<exists>r \<in> set (get_audios lang_example). lang_matches r l"
    using m a by simp
  have 1: "fst (select_audio lang_example (Some [''it'', ''en''])) =
             Some (mk_rep ''audio'' 0 0 64000 ''en'')"
    using select_audio_by_preference [of "[''it'', ''en'']" lang_example] ex
    by (simp add: lang_example_def sel_audio_eval)
  have nm: "\<forall>l \<in> set [''it'', ''de'']. \<forall>r \<in> set (get_audios lang_example). \<not> lang_matches r l"
    by (simp add: a) (simp add: sel_audio_eval)
  have b: "get_best_audio lang_example = Some (mk_rep ''audio'' 0 0 128000 ''fr'')"
    by (simp add: lang_example_def sel_audio_eval)
  have 2: "fst (select_audio lang_example (Some [''it'', ''de''])) =
             Some (mk_rep ''audio'' 0 0 128000 ''fr'')"
    using select_audio_by_preference [of "[''it'', ''de'']" lang_example] nm b by simp
  have 3: "fst (select_audio lang_example None) = Some (mk_rep ''audio'' 0 0 128000 ''fr'')"
    using select_audio_by_preference [of "[]" lang_example] b by simp
  have ne: "get_audios lang_example \<noteq> []" by (simp add: a)
  have e: "get_audios sel_example = []"
    by (simp add: sel_example_def get_audios_def is_audio_def mk_rep_def)
  have 4: "fst (select_audio sel_example (Some [''en''])) = None"
    using select_audio_by_preference [of "[]" sel_example "Some [''en'']"] e by simp
  have l: "language (mk_rep ''audio'' 0 0 64000 ''en'') \<noteq> []" by (simp add: mk_rep_def)
  have t: "tag_matches (mk_rep ''audio'' 0 0 64000 ''en'') ''EN''"
    by (simp add: sel_audio_eval)
  from 1 m 2 3 ne e 4 l t show ?thesis by blast
qed

text \<open>
  The claim as stated fails where a representation has no language: the preference
  \<^verbatim>\<open>none\<close> selects it, although its language tag is empty and no representation's tag
  equals \<^verbatim>\<open>none\<close>; the fallback by bandwidth would have selected the other one.
\<close>

theorem select_audio_untagged_counterexample:
  "fst (select_audio untagged_example (Some [''none''])) = Some (mk_rep ''audio'' 0 0 64000 '''')
   \<and> \<not> tag_matches (mk_rep ''audio'' 0 0 64000 '''') ''none''
   \<and> \<not> tag_matches (mk_rep ''audio'' 0 0 128000 ''en'') ''none''
   \<and> get_best_audio untagged_example = Some (mk_rep ''audio'' 0 0 128000 ''en'')
   \<and> mk_rep ''audio'' 0 0 64000 '''' \<noteq> mk_rep ''audio'' 0 0 128000 ''en''"
  by (simp add: untagged_example_def sel_audio_eval)

subsection \<open>Fetching with retries\<close>

lemma fetch_attempts_all_fail:
  assumes "\<forall>i \<in> set as. failed (net i)" and "as \<noteq> []" and "int (last as) = max_retry"
    and "\<forall>i \<in> set (butlast as). int i \<noteq> max_retry"
  shows "fst (fetch_attempts net max_retry as p out) = Inl (error_of (net (last as)))"
  using assms
proof (induction as arbitrary: out)
  case Nil
  then show ?case by simp
next
  case (Cons a as)
  from Cons.prems(1) have fa: "failed (net a)" by simp
  show ?case
  proof (cases "as = []")
    case True
    with Cons.prems(3) have "int a = max_retry" by simp
    with fa True show ?thesis by (cases "net a") simp_all
  next
    case False
    with Cons.prems(4) have na: "int a \<noteq> max_retry" by simp
    from False Cons.prems have
      "fst (fetch_attempts net max_retry as p (out @ [Retrying (a + 1) max_retry])) =
       Inl (error_of (net (last as)))"
      by (intro Cons.IH) auto
    with fa na False show ?thesis by (cases "net a") simp_all
  qed
qed

lemma fetch_attempts_success_after:
  assumes "\<forall>i \<in> set pre. failed (net i) \<and> int i \<noteq> max_retry" and "net k = Document r"
  shows "fetch_attempts net max_retry (pre @ k # post) p out =
         (Inr (p\<lparr>root := Some r\<rparr>), out @ map (\<lambda>i. Retrying (i + 1) max_retry) pre)"
  using assms
proof (induction pre arbitrary: out)
  case Nil
  then show ?case by simp
next
  case (Cons a pre)
  from Cons.prems(1) have fa: "failed (net a)" and na: "int a \<noteq> max_retry" by simp_all
  from Cons.prems have
    "fetch_attempts net max_retry (pre @ k # post) p (out @ [Retrying (a + 1) max_retry]) =
     (Inr (p\<lparr>root := Some r\<rparr>),
      (out @ [Retrying (a + 1) max_retry]) @ map (\<lambda>i. Retrying (i + 1) max_retry) pre)"
    by (intro Cons.IH) auto
  with fa na show ?case by (cases "net a") simp_all
qed

lemma range_split:
  assumes "k \<le> n"
  shows "[0 ..< Suc n] = [0 ..< k] @ k # [Suc k ..< Suc n]"
proof -
  have "[0 ..< Suc n] = [0 ..< k] @ [k ..< Suc n]"
    using assms by (metis le_SucI upt_add_eq_append le_add_diff_inverse zero_le add_0)
  also have "[k ..< Suc n] = k # [Suc k ..< Suc n]"
    using assms by (simp add: upt_conv_Cons)
  finally show ?thesis .
qed


lemma retry_range: "0 \<le> max_retry \<Longrightarrow> [0 ..< nat (max_retry + 1)] = [0 ..< Suc (nat max_retry)]"
  by (simp add: nat_add_distrib)

lemma fetch_all_fail:
  assumes mr: "0 \<le> max_retry" and fails: "\<forall>i \<le> nat max_retry. failed (net i)"
  shows "fst (fetch_and_parse_mpd net max_retry p) = Inl (error_of (net (nat max_retry)))"
proof -
  let ?n = "nat max_retry"
  let ?as = "[0 ..< Suc ?n]"
  have 1: "\<forall>i \<in> set ?as. failed (net i)" using fails by auto
  have 2: "?as \<noteq> []" by simp
  have 3: "int (last ?as) = max_retry" using mr by simp
  have 4: "\<forall>i \<in> set (butlast ?as). int i \<noteq> max_retry" using mr by auto
  from fetch_attempts_all_fail [OF 1 2 3 4, of p "[]"]
  have "fst (fetch_attempts net max_retry ?as p []) = Inl (error_of (net ?n))" by simp
  then show ?thesis by (simp add: fetch_and_parse_mpd_def retry_range [OF mr])
qed

lemma fetch_success_after:
  assumes mr: "0 \<le> max_retry" and k: "k \<le> nat max_retry"
    and fails: "\<forall>i < k. failed (net i)" and ok: "net k = Document r"
  shows "fetch_and_parse_mpd net max_retry p =
         (Inr (p\<lparr>root := Some r\<rparr>), map (\<lambda>i. Retrying (i + 1) max_retry) [0 ..< k])"
proof -
  let ?n = "nat max_retry"
  have split: "[0 ..< Suc ?n] = [0 ..< k] @ k # [Suc k ..< Suc ?n]" by (rule range_split [OF k])
  have pre: "\<forall>i \<in> set [0 ..< k]. failed (net i) \<and> int i \<noteq> max_retry"
    using fails k mr by auto
  have e: "fetch_attempts net max_retry ([0 ..< k] @ k # [Suc k ..< Suc ?n]) p [] =
           (Inr (p\<lparr>root := Some r\<rparr>), [] @ map (\<lambda>i. Retrying (i + 1) max_retry) [0 ..< k])"
    by (rule fetch_attempts_success_after [OF pre ok])
  have "fetch_and_parse_mpd net max_retry p =
        fetch_attempts net max_retry ([0 ..< k] @ k # [Suc k ..< Suc ?n]) p []"
    by (simp only: fetch_and_parse_mpd_def retry_range [OF mr] split [symmetric])
  with e show ?thesis by (simp only: append_Nil)
qed

text \<open>
  Claim C6, as amended. With a retry bound of at least 0, the fetch retries after a failed
  attempt of any kind (transport error, error status, or a body that does not parse as
  XML), making at most \<open>max_retry\<close> further attempts one after the other. If every attempt
  fails, the exception of the last attempt is raised and no parser state is returned; if
  the first \<open>k\<close> attempts fail and attempt \<open>k\<close>, within the bound, succeeds, the root is the
  parsed document, as it would be had the first attempt succeeded, and the only trace of
  the failures is one retry message for each.
\<close>

theorem fetch_retries_any_failure:
  "0 \<le> max_retry \<longrightarrow>
     ((\<forall>i \<le> nat max_retry. failed (net i)) \<longrightarrow>
        fst (fetch_and_parse_mpd net max_retry p) = Inl (error_of (net (nat max_retry))))
     \<and> (\<forall>k r. k \<le> nat max_retry \<and> (\<forall>i < k. failed (net i)) \<and> net k = Document r \<longrightarrow>
          fetch_and_parse_mpd net max_retry p =
            (Inr (p\<lparr>root := Some r\<rparr>), map (\<lambda>i. Retrying (i + 1) max_retry) [0 ..< k])
          \<and> fst (fetch_and_parse_mpd net max_retry p) =
              fst (fetch_and_parse_mpd (\<lambda>i. Document r) max_retry p))"
proof (intro impI conjI allI)
  assume mr: "0 \<le> max_retry" and "\<forall>i \<le> nat max_retry. failed (net i)"
  then show "fst (fetch_and_parse_mpd net max_retry p) = Inl (error_of (net (nat max_retry)))"
    by (rule fetch_all_fail)
next
  fix k r
  assume mr: "0 \<le> max_retry"
    and h: "k \<le> nat max_retry \<and> (\<forall>i < k. failed (net i)) \<and> net k = Document r"
  from h have k: "k \<le> nat max_retry" and f: "\<forall>i < k. failed (net i)" and ok: "net k = Document r"
    by simp_all
  show a: "fetch_and_parse_mpd net max_retry p =
        (Inr (p\<lparr>root := Some r\<rparr>), map (\<lambda>i. Retrying (i + 1) max_retry) [0 ..< k])"
    by (rule fetch_success_after [OF mr k f ok])
  have "fetch_and_parse_mpd (\<lambda>i. Document r) max_retry p =
        (Inr (p\<lparr>root := Some r\<rparr>), map (\<lambda>i. Retrying (i + 1) max_retry) [0 ..< 0])"
    by (rule fetch_success_after [OF mr]) simp_all
  with a show "fst (fetch_and_parse_mpd net max_retry p) =
               fst (fetch_and_parse_mpd (\<lambda>i. Document r) max_retry p)"
    by simp
qed

theorem fetch_retries_any_failure_witness:
  "(0::int) \<le> 2
   \<and> failed (net_down 0) \<and> failed (net_down 1) \<and> failed (net_down 2)
   \<and> fst (fetch_and_parse_mpd net_down 2 (new_parser ''http://host/a/m.mpd'')) = Inl HTTPError
   \<and> failed (net_flaky 0) \<and> net_flaky 1 = Document tiny_mpd
   \<and> fetch_and_parse_mpd net_flaky 2 (new_parser ''http://host/a/m.mpd'') =
       (Inr ((new_parser ''http://host/a/m.mpd'')\<lparr>root := Some tiny_mpd\<rparr>), [Retrying 1 2])"
proof -
  have f: "\<forall>i \<le> nat 2. failed (net_down i)" by (simp add: net_down_def)
  have d: "failed (net_down 0) \<and> failed (net_down 1) \<and> failed (net_down 2)"
    by (simp add: net_down_def)
  have 1: "fst (fetch_and_parse_mpd net_down 2 (new_parser ''http://host/a/m.mpd'')) = Inl HTTPError"
    using fetch_retries_any_failure [of 2 net_down "new_parser ''http://host/a/m.mpd''"] f
    by (simp add: net_down_def)
  have g: "(1::nat) \<le> nat 2 \<and> (\<forall>i < 1. failed (net_flaky i)) \<and> net_flaky 1 = Document tiny_mpd"
    by (simp add: net_flaky_def)
  have g': "failed (net_flaky 0) \<and> net_flaky 1 = Document tiny_mpd"
    by (simp add: net_flaky_def)
  have mr: "(0::int) \<le> 2" by simp
  let ?P = "new_parser ''http://host/a/m.mpd''"
  have "\<forall>k r. k \<le> nat 2 \<and> (\<forall>i < k. failed (net_flaky i)) \<and> net_flaky k = Document r \<longrightarrow>
          fetch_and_parse_mpd net_flaky 2 ?P =
            (Inr (?P\<lparr>root := Some r\<rparr>), map (\<lambda>i. Retrying (i + 1) 2) [0 ..< k])"
    using fetch_retries_any_failure [of 2 net_flaky ?P] mr by blast
  with g have "fetch_and_parse_mpd net_flaky 2 ?P =
            (Inr (?P\<lparr>root := Some tiny_mpd\<rparr>), map (\<lambda>i. Retrying (i + 1) 2) [0 ..< 1])"
    by blast
  then have 2: "fetch_and_parse_mpd net_flaky 2 ?P =
       (Inr (?P\<lparr>root := Some tiny_mpd\<rparr>), [Retrying 1 2])"
    by simp
  from d 1 g' 2 show ?thesis by simp
qed

text \<open>
  The claim as stated fails: the first answer is a body that is not XML, which is neither a
  transport failure nor an error status, and the fetch still retries and returns the
  document of the second attempt.
\<close>

theorem fetch_retries_parse_error_counterexample:
  "net_malformed_then_ok 0 = Malformed_body
   \<and> error_of (net_malformed_then_ok 0) = XMLParseError
   \<and> fetch_and_parse_mpd net_malformed_then_ok 1 (new_parser ''http://host/a/m.mpd'') =
       (Inr ((new_parser ''http://host/a/m.mpd'')\<lparr>root := Some tiny_mpd\<rparr>), [Retrying 1 1])"
  by (simp add: net_malformed_then_ok_def fetch_and_parse_mpd_def upt_rec)

subsection \<open>Number substitution\<close>

lemma startswith_append: "startswith (p @ s) p"
  by (induction p) auto

lemma strip_prefix_append: "strip_prefix p (p @ s) = Some s"
  by (simp add: strip_prefix_def startswith_append)

lemma match_dollar_yes: "match_dollar (CHR ''$'' # post) = Some post"
  by (simp add: match_dollar_def strip_prefix_def)

lemma match_dollar_no: "c \<noteq> CHR ''$'' \<Longrightarrow> match_dollar (c # cs) = None"
  by (simp add: match_dollar_def strip_prefix_def)

lemma match_format_digits:
  assumes "ds \<noteq> []" and "\<forall>c \<in> set ds. is_digit c"
  shows "match_format (''%0'' @ ds @ CHR ''d'' # rest) = Some (ds, rest)"
proof -
  have sp: "strip_prefix ''%0'' (''%0'' @ ds @ CHR ''d'' # rest) = Some (ds @ CHR ''d'' # rest)"
    by (rule strip_prefix_append)
  have nd: "\<not> is_digit CHR ''d''" by (simp add: is_digit_def)
  have tw: "takeWhile is_digit (ds @ CHR ''d'' # rest) = ds"
    using assms(2) nd by (simp add: takeWhile_tail)
  have dw: "dropWhile is_digit (ds @ CHR ''d'' # rest) = CHR ''d'' # rest"
    using assms(2) nd by (simp add: dropWhile_append2)
  show ?thesis
    unfolding match_format_def sp using assms(1) by (simp add: tw dw)
qed

lemma match_format_dollar: "match_format (CHR ''$'' # post) = None"
  by (simp add: match_format_def strip_prefix_def)

lemma match_number_format:
  assumes "ds \<noteq> []" and "\<forall>c \<in> set ds. is_digit c"
  shows "match_number (''$Number%0'' @ ds @ ''d$'' @ post) = Some (Some ds, post)"
proof -
  have sp: "strip_prefix ''$Number'' (''$Number'' @ (''%0'' @ ds @ CHR ''d'' # CHR ''$'' # post)) =
            Some (''%0'' @ ds @ CHR ''d'' # CHR ''$'' # post)"
    by (rule strip_prefix_append)
  have mf: "match_format (''%0'' @ ds @ CHR ''d'' # CHR ''$'' # post) = Some (ds, CHR ''$'' # post)"
    by (rule match_format_digits [OF assms])
  have "match_number (''$Number'' @ (''%0'' @ ds @ CHR ''d'' # CHR ''$'' # post)) = Some (Some ds, post)"
    unfolding match_number_def sp using mf by (simp add: match_dollar_yes)
  then show ?thesis by simp
qed

lemma match_number_plain: "match_number (''$Number$'' @ post) = Some (None, post)"
proof -
  have sp: "strip_prefix ''$Number'' (''$Number'' @ (CHR ''$'' # post)) = Some (CHR ''$'' # post)"
    by (rule strip_prefix_append)
  have "match_number (''$Number'' @ (CHR ''$'' # post)) = Some (None, post)"
    unfolding match_number_def sp by (simp add: match_format_dollar match_dollar_yes)
  then show ?thesis by simp
qed

lemma match_number_other: "c \<noteq> CHR ''$'' \<Longrightarrow> match_number (c # cs) = None"
  by (simp add: match_number_def strip_prefix_def)

lemma replace_number_format:
  assumes "ds \<noteq> []" and "\<forall>c \<in> set ds. is_digit c"
  shows "replace_number (''$Number%0'' @ ds @ ''d$'' @ post) number =
         replace_number_match number (Some ds) @ replace_number post number"
proof -
  have "match_number (CHR ''$'' # (''Number%0'' @ ds @ ''d$'' @ post)) = Some (Some ds, post)"
    using match_number_format [OF assms, of post] by simp
  then have "replace_number (CHR ''$'' # (''Number%0'' @ ds @ ''d$'' @ post)) number =
             replace_number_match number (Some ds) @ replace_number post number"
    by (simp only: replace_number.simps option.case prod.case)
  then show ?thesis by simp
qed

lemma replace_number_plain:
  "replace_number (''$Number$'' @ post) number =
   replace_number_match number None @ replace_number post number"
proof -
  have "match_number (CHR ''$'' # (''Number$'' @ post)) = Some (None, post)"
    using match_number_plain [of post] by simp
  then have "replace_number (CHR ''$'' # (''Number$'' @ post)) number =
             replace_number_match number None @ replace_number post number"
    by (simp only: replace_number.simps option.case prod.case)
  then show ?thesis by simp
qed

lemma replace_number_keeps:
  "CHR ''$'' \<notin> set pre \<Longrightarrow> replace_number (pre @ post) number = pre @ replace_number post number"
proof (induction pre)
  case Nil
  show ?case by simp
next
  case (Cons c pre)
  then have c: "c \<noteq> CHR ''$''" and pre: "CHR ''$'' \<notin> set pre" by auto
  have "replace_number (c # (pre @ post)) number = c # replace_number (pre @ post) number"
    by (simp only: replace_number.simps match_number_other [OF c] option.case)
  with Cons.IH [OF pre] show ?case by simp
qed

lemma digit_char_is_digit: "d < 10 \<Longrightarrow> is_digit (digit_char d)"
proof -
  assume "d < 10"
  then have "d = 0 \<or> d = 1 \<or> d = 2 \<or> d = 3 \<or> d = 4 \<or> d = 5 \<or> d = 6 \<or> d = 7 \<or> d = 8 \<or> d = 9"
    by presburger
  then show ?thesis by (auto simp: digit_char_def is_digit_def)
qed

lemma str_nat_digits: "str_nat n \<noteq> [] \<and> (\<forall>c \<in> set (str_nat n). is_digit c)"
proof (induction n rule: str_nat.induct)
  case (1 n)
  show ?case
  proof (cases "n < 10")
    case True
    then show ?thesis by (simp add: str_nat.simps [of n] digit_char_is_digit)
  next
    case False
    have "n mod 10 < 10" by simp
    then have "is_digit (digit_char (n mod 10))" by (rule digit_char_is_digit)
    with False "1.IH" show ?thesis by (simp add: str_nat.simps [of n])
  qed
qed

lemma zfill_nonneg:
  assumes "0 \<le> n"
  shows "zfill (str_int n) w = replicate (w - length (str_int n)) CHR ''0'' @ str_int n"
proof -
  have s: "str_int n = str_nat (nat n)" using assms by (simp add: str_int_def)
  from str_nat_digits [of "nat n"] have ne: "str_nat (nat n) \<noteq> []"
    and dg: "is_digit (hd (str_nat (nat n)))" by simp_all
  have "\<not> is_digit CHR ''+''" and "\<not> is_digit CHR ''-''" by (simp_all add: is_digit_def)
  with dg have "hd (str_nat (nat n)) \<noteq> CHR ''+''" and "hd (str_nat (nat n)) \<noteq> CHR ''-''" by auto
  then show ?thesis unfolding s zfill_def by simp
qed

lemma number_examples:
  "replace_number ''$Number%03d$'' (Some 7) = ''007''"
  "replace_number ''$Number$'' (Some 7) = ''7''"
  "replace_number ''$Number%03d$'' None = ''000''"
  "replace_number ''$Number$'' None = ''0''"
  by code_simp+


lemma build_url_number_examples:
  "build_url urljoin base (Some ''$Number%03d$'') None (Some 7) None None =
     Some (urljoin base ''007'')"
  "build_url urljoin base (Some ''$Number$'') None (Some 7) None None =
     Some (urljoin base ''7'')"
proof -
  have f: "finalize_url urljoin base ''007'' = urljoin base ''007''"
    "finalize_url urljoin base ''7'' = urljoin base ''7''"
    by (simp_all add: finalize_url_def split_once_def)
  show "build_url urljoin base (Some ''$Number%03d$'') None (Some 7) None None =
     Some (urljoin base ''007'')"
    unfolding build_url_def by (simp only: number_examples f option.case Let_def) simp
  show "build_url urljoin base (Some ''$Number$'') None (Some 7) None None =
     Some (urljoin base ''7'')"
    unfolding build_url_def by (simp only: number_examples f option.case Let_def) simp
qed

lemma startswith_iff: "startswith s p \<longleftrightarrow> (\<exists>b. s = p @ b)"
  by (induction s p rule: startswith.induct) auto

lemma contains_iff: "contains sub s \<longleftrightarrow> (\<exists>a b. s = a @ sub @ b)"
proof (induction s)
  case Nil
  show ?case by auto
next
  case (Cons c cs)
  show ?case
  proof
    assume "contains sub (c # cs)"
    then consider "startswith (c # cs) sub" | "contains sub cs" by auto
    then show "\<exists>a b. c # cs = a @ sub @ b"
    proof cases
      case 1
      then obtain b where "c # cs = sub @ b" by (auto simp: startswith_iff)
      then have "c # cs = [] @ sub @ b" by simp
      then show ?thesis by blast
    next
      case 2
      with Cons.IH obtain a b where "cs = a @ sub @ b" by blast
      then have "c # cs = (c # a) @ sub @ b" by simp
      then show ?thesis by blast
    qed
  next
    assume "\<exists>a b. c # cs = a @ sub @ b"
    then obtain a b where e: "c # cs = a @ sub @ b" by blast
    show "contains sub (c # cs)"
    proof (cases a)
      case Nil
      with e have "startswith (c # cs) sub" by (auto simp: startswith_iff)
      then show ?thesis by simp
    next
      case (Cons x a')
      with e have "cs = a' @ sub @ b" by simp
      with Cons.IH have "contains sub cs" by blast
      then show ?thesis by simp
    qed
  qed
qed

lemma strip_prefix_Some: "strip_prefix p s = Some r \<longleftrightarrow> s = p @ r"
  by (auto simp: strip_prefix_def startswith_iff)

lemma match_format_Some:
  assumes "match_format q = Some (ds, r)"
  shows "q = ''%0'' @ ds @ ''d'' @ r \<and> ds \<noteq> [] \<and> (\<forall>c \<in> set ds. is_digit c)"
proof -
  from assms obtain x where x: "strip_prefix ''%0'' q = Some x"
    by (auto simp: match_format_def split: option.splits)
  then have q: "q = ''%0'' @ x" by (simp only: strip_prefix_Some)
  from assms x have ds: "ds = takeWhile is_digit x" and ne: "ds \<noteq> []"
    and sw: "startswith (dropWhile is_digit x) ''d''" and r: "r = tl (dropWhile is_digit x)"
    by (auto simp: match_format_def Let_def split: if_splits)
  from sw obtain b where b: "dropWhile is_digit x = ''d'' @ b" by (auto simp: startswith_iff)
  with r have "dropWhile is_digit x = ''d'' @ r" by simp
  with ds have "x = ds @ ''d'' @ r" using takeWhile_dropWhile_id [of is_digit x] by simp
  moreover have "\<forall>c \<in> set ds. is_digit c" unfolding ds by (auto dest: set_takeWhileD)
  ultimately show ?thesis using q ne by simp
qed

lemma match_number_starts:
  assumes "match_number s = Some x"
  shows "\<exists>q. s = ''$Number'' @ q"
proof -
  from assms obtain q where "strip_prefix ''$Number'' s = Some q"
    by (auto simp: match_number_def split: option.splits)
  then have "s = ''$Number'' @ q" by (simp only: strip_prefix_Some)
  then show ?thesis by blast
qed

lemma match_number_no_placeholder:
  assumes "\<not> (\<exists>post. q = ''$'' @ post)"
    and "\<not> (\<exists>ds post. ds \<noteq> [] \<and> (\<forall>c \<in> set ds. is_digit c) \<and> q = ''%0'' @ ds @ ''d$'' @ post)"
  shows "match_number (''$Number'' @ q) = None"
proof -
  have sp: "strip_prefix ''$Number'' (''$Number'' @ q) = Some q" by (rule strip_prefix_append)
  have md: "match_dollar q = None"
  proof (cases "match_dollar q")
    case None
    then show ?thesis .
  next
    case (Some post)
    then have "q = ''$'' @ post" by (simp only: match_dollar_def strip_prefix_Some)
    with assms(1) show ?thesis by blast
  qed
  show ?thesis
  proof (cases "match_format q")
    case None
    then show ?thesis unfolding match_number_def sp by (simp add: md)
  next
    case (Some p)
    obtain ds r where p: "p = (ds, r)" by (cases p)
    from match_format_Some [OF Some [unfolded p]]
    have q: "q = ''%0'' @ ds @ ''d'' @ r" and ne: "ds \<noteq> []" and dg: "\<forall>c \<in> set ds. is_digit c"
      by simp_all
    have "match_dollar r = None"
    proof (cases "match_dollar r")
      case None
      then show ?thesis .
    next
      case (Some post)
      then have "r = ''$'' @ post" by (simp only: match_dollar_def strip_prefix_Some)
      with q have "q = ''%0'' @ ds @ ''d$'' @ post" by simp
      with ne dg assms(2) show ?thesis by blast
    qed
    then show ?thesis unfolding match_number_def sp using Some p by (simp add: md)
  qed
qed

lemma number_tail_no_dollar: "1 \<le> k \<Longrightarrow> k < 7 \<Longrightarrow> ''$Number'' ! k \<noteq> CHR ''$''"
proof -
  assume "1 \<le> k" and "k < 7"
  then have "k = 1 \<or> k = 2 \<or> k = 3 \<or> k = 4 \<or> k = 5 \<or> k = 6" by presburger
  then show ?thesis by auto
qed

lemma no_match_inside:
  assumes np: "\<not> (\<exists>a b. c # pre = a @ ''$Number'' @ b)"
    and post: "post = [] \<or> (\<exists>q. post = ''$Number'' @ q)"
  shows "match_number (c # pre @ post) = None"
proof (cases "match_number (c # pre @ post)")
  case None
  then show ?thesis .
next
  case (Some x)
  from match_number_starts [OF Some] obtain q' where e: "c # pre @ post = ''$Number'' @ q'"
    by blast
  let ?k = "length (c # pre)"
  have False
  proof (cases "7 \<le> ?k")
    case True
    from e have "take 7 ((c # pre) @ post) = take 7 (''$Number'' @ q')" by simp
    with True have "take 7 (c # pre) = ''$Number''" by simp
    then have "c # pre = [] @ ''$Number'' @ drop 7 (c # pre)"
      using append_take_drop_id [of 7 "c # pre"] by simp
    with np show False by blast
  next
    case False
    then have k: "?k < 7" and k1: "1 \<le> ?k" by simp_all
    from post show False
    proof
      assume "post = []"
      with e have "?k = length (''$Number'' @ q')" by simp
      with k show False by simp
    next
      assume "\<exists>q. post = ''$Number'' @ q"
      then obtain q where q: "post = ''$Number'' @ q" by blast
      have "((c # pre) @ post) ! ?k = hd post" unfolding q by (simp add: nth_append)
      then have "((c # pre) @ post) ! ?k = CHR ''$''" unfolding q by simp
      moreover have g: "\<And>xs ys n. n < length xs \<Longrightarrow> (xs @ ys) ! n = (xs :: string) ! n"
        by (simp add: nth_append)
      have "?k < length ''$Number''" using k by simp
      then have "(''$Number'' @ q') ! ?k = ''$Number'' ! ?k" by (rule g)
      ultimately have "''$Number'' ! ?k = CHR ''$''" using e by simp
      with number_tail_no_dollar [OF k1 k] show False by blast
    qed
  qed
  then show ?thesis ..
qed

lemma replace_number_skips:
  assumes "\<not> (\<exists>a b. pre = a @ ''$Number'' @ b)" and "post = [] \<or> (\<exists>q. post = ''$Number'' @ q)"
  shows "replace_number (pre @ post) number = pre @ replace_number post number"
  using assms(1)
proof (induction pre)
  case Nil
  show ?case by simp
next
  case (Cons c pre)
  have "\<not> (\<exists>a b. pre = a @ ''$Number'' @ b)"
  proof
    assume "\<exists>a b. pre = a @ ''$Number'' @ b"
    then obtain a b where "pre = a @ ''$Number'' @ b" by blast
    then have "c # pre = (c # a) @ ''$Number'' @ b" by simp
    with Cons.prems show False by blast
  qed
  then have ih: "replace_number (pre @ post) number = pre @ replace_number post number"
    by (rule Cons.IH)
  have "match_number (c # pre @ post) = None" by (rule no_match_inside [OF Cons.prems assms(2)])
  then have "replace_number (c # (pre @ post)) number = c # replace_number (pre @ post) number"
    by (simp only: replace_number.simps option.case)
  with ih show ?case by simp
qed

lemma replace_number_no_placeholder:
  assumes "\<not> (\<exists>post. q = ''$'' @ post)"
    and "\<not> (\<exists>ds post. ds \<noteq> [] \<and> (\<forall>c \<in> set ds. is_digit c) \<and> q = ''%0'' @ ds @ ''d$'' @ post)"
  shows "replace_number (''$Number'' @ q) number = ''$'' @ replace_number (''Number'' @ q) number"
proof -
  have "match_number (CHR ''$'' # (''Number'' @ q)) = None"
    using match_number_no_placeholder [OF assms] by simp
  then have "replace_number (CHR ''$'' # (''Number'' @ q)) number =
             CHR ''$'' # replace_number (''Number'' @ q) number"
    by (simp only: replace_number.simps option.case)
  then show ?thesis by simp
qed

lemma digit_val_digit_char: "d < 10 \<Longrightarrow> digit_val (digit_char d) = d"
proof -
  assume "d < 10"
  then have "d = 0 \<or> d = 1 \<or> d = 2 \<or> d = 3 \<or> d = 4 \<or> d = 5 \<or> d = 6 \<or> d = 7 \<or> d = 8 \<or> d = 9"
    by presburger
  then show ?thesis by (auto simp: digit_char_def digit_val_def)
qed

lemma digits_to_nat_snoc: "digits_to_nat (xs @ [c]) = 10 * digits_to_nat xs + digit_val c"
  by (simp add: digits_to_nat_def)

lemma digits_to_nat_str_nat: "digits_to_nat (str_nat n) = n"
proof (induction n rule: str_nat.induct)
  case (1 n)
  show ?case
  proof (cases "n < 10")
    case True
    then show ?thesis by (simp add: str_nat.simps [of n] digits_to_nat_def digit_val_digit_char)
  next
    case False
    have "n mod 10 < 10" by simp
    then have "digit_val (digit_char (n mod 10)) = n mod 10" by (rule digit_val_digit_char)
    with False "1.IH" show ?thesis
      by (simp add: str_nat.simps [of n] digits_to_nat_snoc)
  qed
qed

lemma str_nat_no_leading_zero: "str_nat n = ''0'' \<or> hd (str_nat n) \<noteq> CHR ''0''"
proof (induction n rule: str_nat.induct)
  case (1 n)
  show ?case
  proof (cases "n < 10")
    case True
    then have "n \<in> {0, 1, 2, 3, 4, 5, 6, 7, 8, 9}" by auto
    then show ?thesis by (auto simp: str_nat.simps [of n] digit_char_def)
  next
    case False
    then have d: "\<not> n div 10 < 10 \<or> n div 10 \<noteq> 0" by presburger
    from str_nat_digits [of "n div 10"] have ne: "str_nat (n div 10) \<noteq> []" by simp
    have z: "str_nat (n div 10) \<noteq> ''0''"
    proof
      assume "str_nat (n div 10) = ''0''"
      then have "digits_to_nat (str_nat (n div 10)) = digits_to_nat ''0''" by simp
      moreover have "digits_to_nat ''0'' = 0" by (simp add: digits_to_nat_def digit_val_def)
      ultimately have "n div 10 = 0" by (simp only: digits_to_nat_str_nat)
      with False show False by simp
    qed
    from "1.IH" False z have "hd (str_nat (n div 10)) \<noteq> CHR ''0''" by simp
    with ne False show ?thesis by (simp add: str_nat.simps [of n])
  qed
qed

lemma str_int_decimal:
  assumes "0 \<le> k"
  shows "str_int k \<noteq> [] \<and> (\<forall>c \<in> set (str_int k). is_digit c) \<and>
         int (digits_to_nat (str_int k)) = k \<and>
         (str_int k = ''0'' \<or> hd (str_int k) \<noteq> CHR ''0'')"
proof -
  have s: "str_int k = str_nat (nat k)" using assms by (simp add: str_int_def)
  show ?thesis
    unfolding s using str_nat_digits [of "nat k"] str_nat_no_leading_zero [of "nat k"] assms
    by (simp add: digits_to_nat_str_nat)
qed

text \<open>
  Claim C7. \<^verbatim>\<open>_replace_number\<close> replaces every occurrence of the placeholder. At an
  occurrence of \<^verbatim>\<open>$Number%0Nd$\<close> (N one or more digits) it writes \<^verbatim>\<open>str(number).zfill(N)\<close>,
  which for a number that is not negative is the decimal number with zeros in front up to
  the width N; at an occurrence of \<^verbatim>\<open>$Number$\<close> it writes the decimal number; the number is 0
  when none is supplied; in both cases the substitution goes on in the text after the
  occurrence. Text in front of an occurrence (or at the end of the template) in which
  \<^verbatim>\<open>$Number\<close> does not occur is kept as it is, whatever else it holds, other placeholders
  such as \<^verbatim>\<open>$Time$\<close> included; a \<^verbatim>\<open>$Number\<close> that starts no placeholder is text, and the
  substitution goes on after its dollar sign. These cases determine the result on every
  template. The decimal number is the string of digits without leading zero that spells the
  number. \<^verbatim>\<open>$Number%03d$\<close> with 7 gives \<^verbatim>\<open>007\<close> and \<^verbatim>\<open>$Number$\<close> with 7 gives \<^verbatim>\<open>7\<close>, also through
  \<^verbatim>\<open>build_url\<close>.
\<close>

theorem replace_number_substitutes:
  "(ds \<noteq> [] \<and> (\<forall>c \<in> set ds. is_digit c) \<longrightarrow>
      replace_number (''$Number%0'' @ ds @ ''d$'' @ post) number =
        zfill (str_int (case number of Some n \<Rightarrow> n | None \<Rightarrow> 0)) (digits_to_nat ds)
        @ replace_number post number)
   \<and> replace_number (''$Number$'' @ post) number =
        str_int (case number of Some n \<Rightarrow> n | None \<Rightarrow> 0) @ replace_number post number
   \<and> (\<not> (\<exists>a b. pre = a @ ''$Number'' @ b) \<and> (rest = [] \<or> (\<exists>q. rest = ''$Number'' @ q)) \<longrightarrow>
        replace_number (pre @ rest) number = pre @ replace_number rest number)
   \<and> (\<not> (\<exists>p. q = ''$'' @ p) \<and>
      \<not> (\<exists>ds' p. ds' \<noteq> [] \<and> (\<forall>c \<in> set ds'. is_digit c) \<and> q = ''%0'' @ ds' @ ''d$'' @ p) \<longrightarrow>
        replace_number (''$Number'' @ q) number = ''$'' @ replace_number (''Number'' @ q) number)
   \<and> replace_number [] number = []
   \<and> (0 \<le> k \<longrightarrow> zfill (str_int k) w = replicate (w - length (str_int k)) CHR ''0'' @ str_int k)
   \<and> (0 \<le> k \<longrightarrow>
        str_int k \<noteq> [] \<and> (\<forall>c \<in> set (str_int k). is_digit c) \<and>
        int (digits_to_nat (str_int k)) = k \<and>
        (str_int k = ''0'' \<or> hd (str_int k) \<noteq> CHR ''0''))
   \<and> replace_number ''$Number%03d$'' (Some 7) = ''007''
   \<and> replace_number ''$Number$'' (Some 7) = ''7''
   \<and> replace_number ''$Number%03d$'' None = ''000''
   \<and> replace_number ''$Number$'' None = ''0''
   \<and> build_url urljoin base (Some ''$Number%03d$'') None (Some 7) None None =
        Some (urljoin base ''007'')
   \<and> build_url urljoin base (Some ''$Number$'') None (Some 7) None None =
        Some (urljoin base ''7'')"
proof -
  have c1: "ds \<noteq> [] \<and> (\<forall>c \<in> set ds. is_digit c) \<longrightarrow>
      replace_number (''$Number%0'' @ ds @ ''d$'' @ post) number =
        zfill (str_int (case number of Some n \<Rightarrow> n | None \<Rightarrow> 0)) (digits_to_nat ds)
        @ replace_number post number"
  proof
    assume "ds \<noteq> [] \<and> (\<forall>c \<in> set ds. is_digit c)"
    then have a: "ds \<noteq> []" and b: "\<forall>c \<in> set ds. is_digit c" by simp_all
    from replace_number_format [OF a b, of post number]
    show "replace_number (''$Number%0'' @ ds @ ''d$'' @ post) number =
        zfill (str_int (case number of Some n \<Rightarrow> n | None \<Rightarrow> 0)) (digits_to_nat ds)
        @ replace_number post number"
      by (simp add: replace_number_match_def)
  qed
  have c2: "replace_number (''$Number$'' @ post) number =
        str_int (case number of Some n \<Rightarrow> n | None \<Rightarrow> 0) @ replace_number post number"
    using replace_number_plain [of post number] by (simp add: replace_number_match_def)
  have c3: "\<not> (\<exists>a b. pre = a @ ''$Number'' @ b) \<and> (rest = [] \<or> (\<exists>q. rest = ''$Number'' @ q)) \<longrightarrow>
        replace_number (pre @ rest) number = pre @ replace_number rest number"
  proof
    assume "\<not> (\<exists>a b. pre = a @ ''$Number'' @ b) \<and> (rest = [] \<or> (\<exists>q. rest = ''$Number'' @ q))"
    then have a: "\<not> (\<exists>a b. pre = a @ ''$Number'' @ b)"
      and b: "rest = [] \<or> (\<exists>q. rest = ''$Number'' @ q)" by simp_all
    show "replace_number (pre @ rest) number = pre @ replace_number rest number"
      by (rule replace_number_skips [OF a b])
  qed
  have c4: "\<not> (\<exists>p. q = ''$'' @ p) \<and>
      \<not> (\<exists>ds' p. ds' \<noteq> [] \<and> (\<forall>c \<in> set ds'. is_digit c) \<and> q = ''%0'' @ ds' @ ''d$'' @ p) \<longrightarrow>
        replace_number (''$Number'' @ q) number = ''$'' @ replace_number (''Number'' @ q) number"
  proof
    assume "\<not> (\<exists>p. q = ''$'' @ p) \<and>
      \<not> (\<exists>ds' p. ds' \<noteq> [] \<and> (\<forall>c \<in> set ds'. is_digit c) \<and> q = ''%0'' @ ds' @ ''d$'' @ p)"
    then have a: "\<not> (\<exists>p. q = ''$'' @ p)"
      and b: "\<not> (\<exists>ds' p. ds' \<noteq> [] \<and> (\<forall>c \<in> set ds'. is_digit c) \<and> q = ''%0'' @ ds' @ ''d$'' @ p)"
      by simp_all
    show "replace_number (''$Number'' @ q) number = ''$'' @ replace_number (''Number'' @ q) number"
      by (rule replace_number_no_placeholder [OF a b])
  qed
  have c5: "replace_number [] number = []" by (simp add: replace_number.simps(1))
  have c6: "0 \<le> k \<longrightarrow>
        zfill (str_int k) w = replicate (w - length (str_int k)) CHR ''0'' @ str_int k"
    using zfill_nonneg [of k w] by blast
  have c7: "0 \<le> k \<longrightarrow>
        str_int k \<noteq> [] \<and> (\<forall>c \<in> set (str_int k). is_digit c) \<and>
        int (digits_to_nat (str_int k)) = k \<and>
        (str_int k = ''0'' \<or> hd (str_int k) \<noteq> CHR ''0'')"
    using str_int_decimal [of k] by blast
  show ?thesis
    by (intro conjI; (rule c1 c2 c3 c4 c5 c6 c7 number_examples build_url_number_examples))
qed

theorem replace_number_substitutes_witness:
  "''5'' \<noteq> [] \<and> is_digit CHR ''5''
   \<and> replace_number ''$Number%05d$.m4s'' (Some 42) = ''00042.m4s''
   \<and> \<not> (\<exists>a b. ''$Time$_'' = a @ ''$Number'' @ b)
   \<and> replace_number ''$Time$_$Number$.m4s'' (Some 7) = ''$Time$_7.m4s''
   \<and> \<not> (\<exists>a b. ''.m4s'' = a @ ''$Number'' @ b)
   \<and> replace_number ''.m4s'' (Some 7) = ''.m4s''
   \<and> \<not> (\<exists>p. ''%5d$'' = ''$'' @ p)
   \<and> replace_number ''$Number%5d$'' (Some 7) = ''$Number%5d$''
   \<and> (0::int) \<le> 42
   \<and> zfill (str_int 42) 5 = ''00042''
   \<and> str_int 42 = ''42''"
proof -
  have d: "''5'' \<noteq> [] \<and> (\<forall>c \<in> set ''5''. is_digit c)" by (simp add: is_digit_def)
  have d': "''5'' \<noteq> [] \<and> is_digit CHR ''5''" by (simp add: is_digit_def)
  have k: "(0::int) \<le> 42" by simp
  have s42: "str_int 42 = ''42''" by code_simp
  have w05: "digits_to_nat ''5'' = 5" by code_simp
  have z: "zfill ''42'' 5 = ''00042''" by code_simp
  note t = replace_number_substitutes [of "''5''" "''.m4s''" "Some 42" _ _ _ 42 5]
  have e: "replace_number ''.m4s'' (Some 42) = ''.m4s''" by code_simp
  from t d have "replace_number (''$Number%0'' @ ''5'' @ ''d$'' @ ''.m4s'') (Some 42) =
        zfill (str_int 42) (digits_to_nat ''5'') @ replace_number ''.m4s'' (Some 42)"
    by simp
  then have 1: "replace_number ''$Number%05d$.m4s'' (Some 42) = ''00042.m4s''"
    by (simp add: s42 w05 z e)
  have c1: "\<not> contains ''$Number'' ''$Time$_''" by code_simp
  then have n1: "\<not> (\<exists>a b. ''$Time$_'' = a @ ''$Number'' @ b)" unfolding contains_iff .
  have c2: "\<not> contains ''$Number'' ''.m4s''" by code_simp
  then have n2: "\<not> (\<exists>a b. ''.m4s'' = a @ ''$Number'' @ b)" unfolding contains_iff .
  have r2: "''$Number$.m4s'' = [] \<or> (\<exists>q. ''$Number$.m4s'' = ''$Number'' @ q)" by simp
  from replace_number_substitutes [of _ _ "Some 7" "''$Time$_''" "''$Number$.m4s''"] n1 r2
  have a: "replace_number (''$Time$_'' @ ''$Number$.m4s'') (Some 7) =
           ''$Time$_'' @ replace_number ''$Number$.m4s'' (Some 7)" by blast
  from replace_number_substitutes [of _ "''.m4s''" "Some 7"]
  have b: "replace_number (''$Number$'' @ ''.m4s'') (Some 7) =
           str_int 7 @ replace_number ''.m4s'' (Some 7)" by simp
  have r3: "([]::string) = [] \<or> (\<exists>q. ([]::string) = ''$Number'' @ q)" by simp
  from replace_number_substitutes [of _ _ "Some 7" "''.m4s''" "[]"] n2 r3
  have "replace_number (''.m4s'' @ []) (Some 7) = ''.m4s'' @ replace_number [] (Some 7)" by blast
  moreover from replace_number_substitutes [of _ _ "Some 7"]
  have "replace_number [] (Some 7) = []" by simp
  ultimately have c: "replace_number ''.m4s'' (Some 7) = ''.m4s''" by simp
  have s7: "str_int 7 = ''7''" by code_simp
  from a b c s7 have 2: "replace_number ''$Time$_$Number$.m4s'' (Some 7) = ''$Time$_7.m4s''"
    by simp
  have q1: "\<not> (\<exists>p. ''%5d$'' = ''$'' @ p)" by simp
  have q2: "\<not> (\<exists>ds' p. ds' \<noteq> [] \<and> (\<forall>c \<in> set ds'. is_digit c) \<and>
                 ''%5d$'' = ''%0'' @ ds' @ ''d$'' @ p)" by simp
  from replace_number_substitutes [of _ _ "Some 7" _ _ "''%5d$''"] q1 q2
  have "replace_number (''$Number'' @ ''%5d$'') (Some 7) =
        ''$'' @ replace_number (''Number'' @ ''%5d$'') (Some 7)" by blast
  moreover have "replace_number ''Number%5d$'' (Some 7) = ''Number%5d$''" by code_simp
  ultimately have 3: "replace_number ''$Number%5d$'' (Some 7) = ''$Number%5d$''" by simp
  from t k have "zfill (str_int 42) 5 = replicate (5 - length (str_int 42)) CHR ''0'' @ str_int 42"
    by blast
  then have 4: "zfill (str_int 42) 5 = ''00042''" by (simp add: s42 z)
  from t k have "int (digits_to_nat (str_int 42)) = 42" by blast
  from d' 1 n1 2 n2 c q1 3 k 4 s42 show ?thesis by simp
qed

subsection \<open>Query and fragment\<close>

lemma split_once_found:
  assumes "sep \<notin> set p"
  shows "split_once sep (p @ sep # rest) = (p, Some rest)"
proof -
  have a: "\<forall>x \<in> set p. x \<noteq> sep" using assms by auto
  have t: "takeWhile (\<lambda>c. c \<noteq> sep) (p @ sep # rest) = p"
    using a by (induction p) auto
  have d: "dropWhile (\<lambda>c. c \<noteq> sep) (p @ sep # rest) = sep # rest"
    using a by (induction p) auto
  show ?thesis by (simp add: split_once_def t d)
qed

lemma split_once_none: "sep \<notin> set s \<Longrightarrow> split_once sep s = (s, None)"
  by (auto simp: split_once_def)

lemma finalize_query_fragment:
  assumes "CHR ''#'' \<notin> set p" and "CHR ''?'' \<notin> set p" and "CHR ''#'' \<notin> set q"
  shows "finalize_url urljoin base (p @ ''?'' @ q @ ''#'' @ f) =
         urljoin base p @ ''?'' @ q @ ''#'' @ f"
proof -
  have nh: "CHR ''#'' \<notin> set (p @ CHR ''?'' # q)" using assms by simp
  have 1: "split_once CHR ''#'' ((p @ CHR ''?'' # q) @ CHR ''#'' # f) = (p @ CHR ''?'' # q, Some f)"
    by (rule split_once_found [OF nh])
  have 2: "split_once CHR ''?'' (p @ CHR ''?'' # q) = (p, Some q)"
    by (rule split_once_found [OF assms(2)])
  have "finalize_url urljoin base ((p @ CHR ''?'' # q) @ CHR ''#'' # f) =
        urljoin base p @ ''?'' @ q @ ''#'' @ f"
    unfolding finalize_url_def 1 by (simp add: 2)
  then show ?thesis by simp
qed

lemma finalize_query_only:
  assumes "CHR ''#'' \<notin> set p" and "CHR ''?'' \<notin> set p" and "CHR ''#'' \<notin> set q"
  shows "finalize_url urljoin base (p @ ''?'' @ q) = urljoin base p @ ''?'' @ q"
proof -
  have nh: "CHR ''#'' \<notin> set (p @ CHR ''?'' # q)" using assms by simp
  have 1: "split_once CHR ''#'' (p @ CHR ''?'' # q) = (p @ CHR ''?'' # q, None)"
    by (rule split_once_none [OF nh])
  have 2: "split_once CHR ''?'' (p @ CHR ''?'' # q) = (p, Some q)"
    by (rule split_once_found [OF assms(2)])
  have "finalize_url urljoin base (p @ CHR ''?'' # q) = urljoin base p @ ''?'' @ q"
    unfolding finalize_url_def 1 by (simp add: 2)
  then show ?thesis by simp
qed

lemma finalize_fragment_only:
  assumes "CHR ''#'' \<notin> set p" and "CHR ''?'' \<notin> set p"
  shows "finalize_url urljoin base (p @ ''#'' @ f) = urljoin base p @ ''#'' @ f"
proof -
  have 1: "split_once CHR ''#'' (p @ CHR ''#'' # f) = (p, Some f)"
    by (rule split_once_found [OF assms(1)])
  have "finalize_url urljoin base (p @ CHR ''#'' # f) = urljoin base p @ ''#'' @ f"
    unfolding finalize_url_def 1 using assms(2) by simp
  then show ?thesis by simp
qed

lemma finalize_path_only:
  assumes "CHR ''#'' \<notin> set p" and "CHR ''?'' \<notin> set p"
  shows "finalize_url urljoin base p = urljoin base p"
  unfolding finalize_url_def split_once_none [OF assms(1)] using assms(2) by simp

lemma finalize_example:
  "finalize_url urljoin base ''seg.mp4?token=abc#frag'' = urljoin base ''seg.mp4'' @ ''?token=abc#frag''"
  by (simp add: finalize_url_def split_once_def)

lemma build_url_plain:
  assumes "t \<noteq> []" and "CHR ''$'' \<notin> set t"
  shows "build_url urljoin base (Some t) None None None None = Some (finalize_url urljoin base t)"
proof -
  have "replace_number (t @ []) None = t @ replace_number [] None"
    by (rule replace_number_keeps [OF assms(2)])
  then have "replace_number t None = t" by (simp add: replace_number.simps(1))
  then show ?thesis using assms(1) by (simp add: build_url_def)
qed

text \<open>
  Claim C8. In \<^verbatim>\<open>_finalize_url\<close> the substituted template is split at its first \<^verbatim>\<open>#\<close> and
  the part before it at its first \<^verbatim>\<open>?\<close>; only the path is joined to the base, and the
  result is the joined path, then \<^verbatim>\<open>?\<close> and the query when there is one, then \<^verbatim>\<open>#\<close> and the
  fragment when there is one, both exactly as they stood in the template. This holds for
  every \<^verbatim>\<open>urljoin\<close> and every base; the template \<^verbatim>\<open>seg.mp4?token=abc#frag\<close> resolves to the
  joined \<^verbatim>\<open>seg.mp4\<close> followed by \<^verbatim>\<open>?token=abc#frag\<close>, also through \<^verbatim>\<open>build_url\<close>.
\<close>

theorem finalize_url_keeps_query_fragment:
  "(CHR ''#'' \<notin> set p \<and> CHR ''?'' \<notin> set p \<and> CHR ''#'' \<notin> set q \<longrightarrow>
      finalize_url urljoin base (p @ ''?'' @ q @ ''#'' @ f) =
        urljoin base p @ ''?'' @ q @ ''#'' @ f
      \<and> finalize_url urljoin base (p @ ''?'' @ q) = urljoin base p @ ''?'' @ q)
   \<and> (CHR ''#'' \<notin> set p \<and> CHR ''?'' \<notin> set p \<longrightarrow>
        finalize_url urljoin base (p @ ''#'' @ f) = urljoin base p @ ''#'' @ f
        \<and> finalize_url urljoin base p = urljoin base p)
   \<and> finalize_url urljoin base ''seg.mp4?token=abc#frag'' =
        urljoin base ''seg.mp4'' @ ''?token=abc#frag''
   \<and> build_url urljoin base (Some ''seg.mp4?token=abc#frag'') None None None None =
        Some (urljoin base ''seg.mp4'' @ ''?token=abc#frag'')"
proof (intro conjI impI)
  assume "CHR ''#'' \<notin> set p \<and> CHR ''?'' \<notin> set p \<and> CHR ''#'' \<notin> set q"
  then have a: "CHR ''#'' \<notin> set p" and b: "CHR ''?'' \<notin> set p" and c: "CHR ''#'' \<notin> set q"
    by simp_all
  show "finalize_url urljoin base (p @ ''?'' @ q @ ''#'' @ f) =
        urljoin base p @ ''?'' @ q @ ''#'' @ f"
    by (rule finalize_query_fragment [OF a b c])
  show "finalize_url urljoin base (p @ ''?'' @ q) = urljoin base p @ ''?'' @ q"
    by (rule finalize_query_only [OF a b c])
next
  assume "CHR ''#'' \<notin> set p \<and> CHR ''?'' \<notin> set p"
  then have a: "CHR ''#'' \<notin> set p" and b: "CHR ''?'' \<notin> set p" by simp_all
  show "finalize_url urljoin base (p @ ''#'' @ f) = urljoin base p @ ''#'' @ f"
    by (rule finalize_fragment_only [OF a b])
  show "finalize_url urljoin base p = urljoin base p"
    by (rule finalize_path_only [OF a b])
next
  show "finalize_url urljoin base ''seg.mp4?token=abc#frag'' =
        urljoin base ''seg.mp4'' @ ''?token=abc#frag''"
    by (rule finalize_example)
next
  have "build_url urljoin base (Some ''seg.mp4?token=abc#frag'') None None None None =
        Some (finalize_url urljoin base ''seg.mp4?token=abc#frag'')"
    by (rule build_url_plain) simp_all
  then show "build_url urljoin base (Some ''seg.mp4?token=abc#frag'') None None None None =
        Some (urljoin base ''seg.mp4'' @ ''?token=abc#frag'')"
    by (simp only: finalize_example)
qed

theorem finalize_url_keeps_query_fragment_witness:
  "CHR ''#'' \<notin> set ''v/seg.mp4'' \<and> CHR ''?'' \<notin> set ''v/seg.mp4'' \<and> CHR ''#'' \<notin> set ''a=1?b=2''
   \<and> finalize_url join_plain ''http://host/a/'' ''v/seg.mp4?a=1?b=2#x#y?z'' =
        ''http://host/a/v/seg.mp4?a=1?b=2#x#y?z''
   \<and> finalize_url join_plain ''http://host/a/'' ''v/seg.mp4?a=1?b=2'' =
        ''http://host/a/v/seg.mp4?a=1?b=2''
   \<and> finalize_url join_plain ''http://host/a/'' ''v/seg.mp4#x#y?z'' =
        ''http://host/a/v/seg.mp4#x#y?z''
   \<and> finalize_url join_plain ''http://host/a/'' ''v/seg.mp4'' = ''http://host/a/v/seg.mp4''"
proof -
  have h1: "CHR ''#'' \<notin> set ''v/seg.mp4'' \<and> CHR ''?'' \<notin> set ''v/seg.mp4'' \<and>
            CHR ''#'' \<notin> set ''a=1?b=2''" by simp
  have h2: "CHR ''#'' \<notin> set ''v/seg.mp4'' \<and> CHR ''?'' \<notin> set ''v/seg.mp4''" by simp
  note t = finalize_url_keeps_query_fragment
    [of "''v/seg.mp4''" "''a=1?b=2''" join_plain "''http://host/a/''" "''x#y?z''"]
  from t h1 have 1: "finalize_url join_plain ''http://host/a/''
          (''v/seg.mp4'' @ ''?'' @ ''a=1?b=2'' @ ''#'' @ ''x#y?z'') =
        join_plain ''http://host/a/'' ''v/seg.mp4'' @ ''?'' @ ''a=1?b=2'' @ ''#'' @ ''x#y?z''"
    and 2: "finalize_url join_plain ''http://host/a/'' (''v/seg.mp4'' @ ''?'' @ ''a=1?b=2'') =
        join_plain ''http://host/a/'' ''v/seg.mp4'' @ ''?'' @ ''a=1?b=2''"
    by blast+
  from t h2 have 3: "finalize_url join_plain ''http://host/a/'' (''v/seg.mp4'' @ ''#'' @ ''x#y?z'') =
        join_plain ''http://host/a/'' ''v/seg.mp4'' @ ''#'' @ ''x#y?z''"
    and 4: "finalize_url join_plain ''http://host/a/'' ''v/seg.mp4'' =
        join_plain ''http://host/a/'' ''v/seg.mp4''"
    by blast+
  from h1 1 2 3 4 show ?thesis by (simp add: join_plain_def)
qed

subsection \<open>The timeline decoder\<close>

lemma emit_run_result:
  "emit_run k d (nums, tms, sn, ct) =
     (nums @ map (\<lambda>i. sn + int i) [0 ..< k], tms @ map (\<lambda>i. ct + int i * d) [0 ..< k],
      sn + int k, ct + int k * d)"
proof (induction k arbitrary: nums tms sn ct)
  case 0
  show ?case by simp
next
  case (Suc k)
  have n: "map (\<lambda>i. sn + int i) [0 ..< Suc k] = sn # map (\<lambda>i. sn + 1 + int i) [0 ..< k]"
    by (simp add: map_upt_Suc algebra_simps del: upt_Suc)
  have t: "map (\<lambda>i. ct + int i * d) [0 ..< Suc k] = ct # map (\<lambda>i. ct + d + int i * d) [0 ..< k]"
    by (simp add: map_upt_Suc algebra_simps del: upt_Suc)
  have "emit_run (Suc k) d (nums, tms, sn, ct) =
        emit_run k d (nums @ [sn], tms @ [ct], sn + 1, ct + d)" by simp
  also have "\<dots> = ((nums @ [sn]) @ map (\<lambda>i. sn + 1 + int i) [0 ..< k],
                   (tms @ [ct]) @ map (\<lambda>i. ct + d + int i * d) [0 ..< k],
                   sn + 1 + int k, ct + d + int k * d)"
    by (rule Suc.IH)
  also have "\<dots> = (nums @ map (\<lambda>i. sn + int i) [0 ..< Suc k],
                   tms @ map (\<lambda>i. ct + int i * d) [0 ..< Suc k],
                   sn + int (Suc k), ct + int (Suc k) * d)"
    unfolding n t by (simp add: algebra_simps)
  finally show ?case .
qed

lemma parse_s_without_d: "get_attr s ''d'' = None \<Longrightarrow> parse_s s st = Inr st"
  by (simp add: parse_s_def)

lemma parse_s_with_d:
  assumes "get_attr s ''d'' = Some ds" and "py_int ds = Inr d" and "repeat_count s = Inr r"
    and "run_start s (current_time st) = Inr t0"
  shows "parse_s s st =
         Inr \<lparr>number_list = number_list st @ map (\<lambda>i. start_number st + int i) [0 ..< nat (r + 1)],
              time_list = time_list st @ map (\<lambda>i. t0 + int i * d) [0 ..< nat (r + 1)],
              current_time = Some (t0 + int (nat (r + 1)) * d),
              start_number = start_number st + int (nat (r + 1))\<rparr>"
  using assms by (simp add: parse_s_def err_bind_def emit_run_result)

lemma parse_loop_append:
  "parse_loop (xs @ ys) st = err_bind (parse_loop xs st) (parse_loop ys)"
proof (induction xs arbitrary: st)
  case Nil
  show ?case by (simp add: err_bind_def)
next
  case (Cons x xs)
  show ?case
  proof (cases "parse_s x st")
    case (Inl e)
    then show ?thesis by (simp add: err_bind_def)
  next
    case (Inr st')
    with Cons.IH [of st'] show ?thesis by (simp add: err_bind_def)
  qed
qed

lemma timeline_example_decoded:
  "timeline_parse dash_ns (Some timeline_example) = Inr ([1, 2, 3, 4], [0, 10, 20, 30])"
  by code_simp

lemma findall_children_registered:
  assumes "nsmap prefix = Some uri" and "uri \<noteq> []" and "hd uri \<noteq> CHR ''*''" and "hd uri \<noteq> CHR ''}''"
  shows "findall_children nsmap prefix name e =
         Inr (filter (\<lambda>c. tag c = ''{'' @ uri @ ''}'' @ name) (children e))"
proof -
  obtain c cs where u: "uri = c # cs" using assms(2) by (cases uri) auto
  with assms(3) have c: "c \<noteq> CHR ''*''" by simp
  have a: "\<not> startswith (''{'' @ uri @ ''}'' @ name) ''{*}''" using c by (simp add: u)
  have b: "\<not> startswith (''{'' @ uri @ ''}'' @ name) ''{}''" using assms(4) by (simp add: u)
  have "tag_selected (''{'' @ uri @ ''}'' @ name) = (\<lambda>t. t = ''{'' @ uri @ ''}'' @ name)"
    using a b by (simp add: tag_selected_def fun_eq_iff)
  then show ?thesis
    using assms(1) by (simp add: findall_children_def resolve_tag_def err_bind_def)
qed

lemma timeline_parse_children:
  assumes "nsmap ''mpd'' = Some uri" and "uri \<noteq> []" and "hd uri \<noteq> CHR ''*''" and "hd uri \<noteq> CHR ''}''"
  shows "timeline_parse nsmap (Some e) =
         (case parse_loop (filter (\<lambda>c. tag c = ''{'' @ uri @ ''}S'') (children e))
                 \<lparr>number_list = [], time_list = [], current_time = None, start_number = 1\<rparr> of
            Inl err \<Rightarrow> Inl err
          | Inr st \<Rightarrow> Inr (number_list st, time_list st))"
  using findall_children_registered [of nsmap "''mpd''" uri "''S''" e] assms
  by (simp add: timeline_parse_def err_bind_def timeline_init_def split: sum.splits)

lemma parse_digits_digits:
  assumes "\<forall>c \<in> set cs. is_digit c"
  shows "parse_digits acc cs = Some (foldl (\<lambda>a c. 10 * a + digit_val c) acc cs)"
  using assms by (induction acc cs rule: parse_digits.induct) simp_all

lemma digit_not_int_space: "is_digit c \<Longrightarrow> \<not> is_int_space c"
  by (auto simp: is_digit_def is_int_space_def Let_def)

lemma int_strip_digits:
  assumes "\<forall>c \<in> set ds. is_digit c"
  shows "int_strip ds = ds"
proof (cases ds)
  case Nil
  then show ?thesis by (simp add: int_strip_def)
next
  case (Cons c cs)
  then have "\<not> is_int_space (hd ds)" using assms by (simp add: digit_not_int_space)
  then have a: "dropWhile is_int_space ds = ds" using Cons by simp
  have ne: "ds \<noteq> []" using Cons by simp
  then have "last ds \<in> set ds" by simp
  with assms have "is_digit (last ds)" by blast
  then have "\<not> is_int_space (last ds)" by (rule digit_not_int_space)
  moreover have "hd (rev ds) = last ds" using ne by (simp only: hd_rev)
  moreover have "rev ds \<noteq> []" using ne by simp
  ultimately have "rev ds \<noteq> [] \<and> \<not> is_int_space (hd (rev ds))" by simp
  then have "rev ds \<noteq> []" and "\<not> is_int_space (hd (rev ds))" by simp_all
  moreover note this
  then have "dropWhile is_int_space (rev ds) = rev ds" by (cases "rev ds") simp_all
  with a show ?thesis by (simp add: int_strip_def)
qed

lemma py_int_digits:
  assumes "ds \<noteq> []" and "\<forall>c \<in> set ds. is_digit c"
  shows "py_int ds = Inr (int (digits_to_nat ds))"
proof -
  obtain c cs where ds: "ds = c # cs" using assms(1) by (cases ds) auto
  have c: "is_digit c" and cs: "\<forall>x \<in> set cs. is_digit x" using assms(2) ds by simp_all
  have nm: "c \<noteq> CHR ''-''" and np: "c \<noteq> CHR ''+''" using c by (auto simp: is_digit_def)
  have "parse_nat ds = Some (foldl (\<lambda>a c. 10 * a + digit_val c) (digit_val c) cs)"
    using c by (simp add: parse_nat_def ds parse_digits_digits [OF cs])
  also have "foldl (\<lambda>a c. 10 * a + digit_val c) (digit_val c) cs = digits_to_nat ds"
    by (simp add: digits_to_nat_def ds)
  finally have "parse_nat ds = Some (digits_to_nat ds)" .
  then show ?thesis
    using nm np int_strip_digits [OF assms(2)] by (simp add: py_int_def Let_def ds)
qed

lemma py_int_examples:
  "py_int ''10'' = Inr 10"
  "py_int '' 42 '' = Inr 42"
  "py_int ''-3'' = Inr (- 3)"
  "py_int ''+7'' = Inr 7"
  "py_int ''1_000'' = Inr 1000"
  "py_int ''1__0'' = Inl ValueError"
  "py_int ''12a'' = Inl ValueError"
  "py_int [] = Inl ValueError"
  "py_int [char_of (28 :: nat), CHR ''3''] = Inl ValueError"
  by code_simp+

text \<open>
  Claim C1, as amended. The decoder goes through the \<^verbatim>\<open>S\<close> children of the timeline element
  in document order, starting with empty lists, no current time and the number 1. An \<^verbatim>\<open>S\<close>
  element with a duration \<open>d\<close>, a repeat count \<open>r\<close> (0 when the attribute is absent) and a run
  start \<open>t0\<close> (its \<^verbatim>\<open>t\<close> attribute, else the current time, else 0) appends the numbers
  \<open>start_number, start_number + 1, ...\<close> and the times \<open>t0, t0 + d, ...\<close>, one of each for
  every round of \<^verbatim>\<open>range(r + 1)\<close>, and leaves the number and the time advanced by as many
  steps: these are \<open>r + 1\<close> entries when \<open>r\<close> is at least \<open>-1\<close>, and none when \<open>r\<close> is below
  \<open>-1\<close>. An \<^verbatim>\<open>S\<close> element without \<open>d\<close> leaves the state as it is. The result is the pair of
  lists after the last \<^verbatim>\<open>S\<close> child. The two \<^verbatim>\<open>S\<close> elements of the example decode to the
  numbers 1, 2, 3, 4 and the times 0, 10, 20, 30; no timeline gives two empty lists.
\<close>

theorem timeline_decoder_runs:
  "(get_attr s ''d'' = None \<longrightarrow> parse_s s st = Inr st)
   \<and> (get_attr s ''d'' = Some ds \<and> py_int ds = Inr d \<and> repeat_count s = Inr r \<and>
        run_start s (current_time st) = Inr t0 \<longrightarrow>
        (\<exists>st'. parse_s s st = Inr st' \<and>
           number_list st' =
             number_list st @ map (\<lambda>i. start_number st + int i) [0 ..< nat (r + 1)] \<and>
           time_list st' = time_list st @ map (\<lambda>i. t0 + int i * d) [0 ..< nat (r + 1)] \<and>
           start_number st' = start_number st + int (nat (r + 1)) \<and>
           current_time st' = Some (t0 + int (nat (r + 1)) * d) \<and>
           (- 1 \<le> r \<longrightarrow>
              int (length (number_list st')) = int (length (number_list st)) + (r + 1) \<and>
              int (length (time_list st')) = int (length (time_list st)) + (r + 1)) \<and>
           (r < - 1 \<longrightarrow>
              number_list st' = number_list st \<and> time_list st' = time_list st \<and>
              start_number st' = start_number st \<and> current_time st' = Some t0)))
   \<and> (get_attr s ''r'' = None \<longrightarrow> repeat_count s = Inr 0)
   \<and> (get_attr s ''r'' = Some rs \<longrightarrow> repeat_count s = py_int rs)
   \<and> (get_attr s ''t'' = Some ts \<longrightarrow> run_start s ct = py_int ts)
   \<and> (get_attr s ''t'' = None \<longrightarrow> run_start s ct = Inr (case ct of None \<Rightarrow> 0 | Some c \<Rightarrow> c))
   \<and> (digs \<noteq> [] \<and> (\<forall>c \<in> set digs. is_digit c) \<longrightarrow> py_int digs = Inr (int (digits_to_nat digs)))
   \<and> parse_loop [] st = Inr st
   \<and> parse_loop (s # ss) st = err_bind (parse_s s st) (parse_loop ss)
   \<and> (parse_s s st = Inr st1 \<longrightarrow> parse_loop (s # ss) st = parse_loop ss st1)
   \<and> parse_loop (xs @ ys) st = err_bind (parse_loop xs st) (parse_loop ys)
   \<and> (parse_loop xs st = Inr st2 \<longrightarrow> parse_loop (xs @ ys) st = parse_loop ys st2)
   \<and> (nsmap ''mpd'' = Some uri \<and> uri \<noteq> [] \<and> hd uri \<noteq> CHR ''*'' \<and> hd uri \<noteq> CHR ''}'' \<and>
        parse_loop (filter (\<lambda>c. tag c = ''{'' @ uri @ ''}S'') (children e))
          \<lparr>number_list = [], time_list = [], current_time = None, start_number = 1\<rparr> = Inr st3 \<longrightarrow>
        timeline_parse nsmap (Some e) = Inr (number_list st3, time_list st3))
   \<and> timeline_parse nsmap None = Inr ([], [])
   \<and> timeline_parse dash_ns (Some timeline_example) = Inr ([1, 2, 3, 4], [0, 10, 20, 30])"
proof -
  have c1: "get_attr s ''d'' = None \<longrightarrow> parse_s s st = Inr st"
    using parse_s_without_d [of s st] by blast
  have c2: "get_attr s ''d'' = Some ds \<and> py_int ds = Inr d \<and> repeat_count s = Inr r \<and>
        run_start s (current_time st) = Inr t0 \<longrightarrow>
        (\<exists>st'. parse_s s st = Inr st' \<and>
           number_list st' =
             number_list st @ map (\<lambda>i. start_number st + int i) [0 ..< nat (r + 1)] \<and>
           time_list st' = time_list st @ map (\<lambda>i. t0 + int i * d) [0 ..< nat (r + 1)] \<and>
           start_number st' = start_number st + int (nat (r + 1)) \<and>
           current_time st' = Some (t0 + int (nat (r + 1)) * d) \<and>
           (- 1 \<le> r \<longrightarrow>
              int (length (number_list st')) = int (length (number_list st)) + (r + 1) \<and>
              int (length (time_list st')) = int (length (time_list st)) + (r + 1)) \<and>
           (r < - 1 \<longrightarrow>
              number_list st' = number_list st \<and> time_list st' = time_list st \<and>
              start_number st' = start_number st \<and> current_time st' = Some t0))"
  proof
    assume h: "get_attr s ''d'' = Some ds \<and> py_int ds = Inr d \<and> repeat_count s = Inr r \<and>
        run_start s (current_time st) = Inr t0"
    let ?st' = "\<lparr>number_list = number_list st @ map (\<lambda>i. start_number st + int i) [0 ..< nat (r + 1)],
              time_list = time_list st @ map (\<lambda>i. t0 + int i * d) [0 ..< nat (r + 1)],
              current_time = Some (t0 + int (nat (r + 1)) * d),
              start_number = start_number st + int (nat (r + 1))\<rparr>"
    from h have a: "get_attr s ''d'' = Some ds" and b: "py_int ds = Inr d"
      and c: "repeat_count s = Inr r" and e: "run_start s (current_time st) = Inr t0"
      by simp_all
    have p: "parse_s s st = Inr ?st'" by (rule parse_s_with_d [OF a b c e])
    have l: "- 1 \<le> r \<longrightarrow>
              int (length (number_list ?st')) = int (length (number_list st)) + (r + 1) \<and>
              int (length (time_list ?st')) = int (length (time_list st)) + (r + 1)"
      by simp
    have n: "r < - 1 \<longrightarrow>
              number_list ?st' = number_list st \<and> time_list ?st' = time_list st \<and>
              start_number ?st' = start_number st \<and> current_time ?st' = Some t0"
      by simp
    from p l n show "\<exists>st'. parse_s s st = Inr st' \<and>
           number_list st' =
             number_list st @ map (\<lambda>i. start_number st + int i) [0 ..< nat (r + 1)] \<and>
           time_list st' = time_list st @ map (\<lambda>i. t0 + int i * d) [0 ..< nat (r + 1)] \<and>
           start_number st' = start_number st + int (nat (r + 1)) \<and>
           current_time st' = Some (t0 + int (nat (r + 1)) * d) \<and>
           (- 1 \<le> r \<longrightarrow>
              int (length (number_list st')) = int (length (number_list st)) + (r + 1) \<and>
              int (length (time_list st')) = int (length (time_list st)) + (r + 1)) \<and>
           (r < - 1 \<longrightarrow>
              number_list st' = number_list st \<and> time_list st' = time_list st \<and>
              start_number st' = start_number st \<and> current_time st' = Some t0)"
      by (intro exI [of _ ?st']) simp
  qed
  have c3: "get_attr s ''r'' = None \<longrightarrow> repeat_count s = Inr 0"
    by (simp add: repeat_count_def)
  have c4: "get_attr s ''r'' = Some rs \<longrightarrow> repeat_count s = py_int rs"
    by (simp add: repeat_count_def)
  have c5: "get_attr s ''t'' = Some ts \<longrightarrow> run_start s ct = py_int ts"
    by (simp add: run_start_def)
  have c6: "get_attr s ''t'' = None \<longrightarrow>
            run_start s ct = Inr (case ct of None \<Rightarrow> 0 | Some c \<Rightarrow> c)"
    by (simp add: run_start_def)
  have c7: "digs \<noteq> [] \<and> (\<forall>c \<in> set digs. is_digit c) \<longrightarrow>
            py_int digs = Inr (int (digits_to_nat digs))"
    using py_int_digits [of digs] by blast
  have c8: "parse_loop [] st = Inr st" by simp
  have c9: "parse_loop (s # ss) st = err_bind (parse_s s st) (parse_loop ss)" by simp
  have c10: "parse_s s st = Inr st1 \<longrightarrow> parse_loop (s # ss) st = parse_loop ss st1"
    by (simp add: err_bind_def)
  have c11: "parse_loop (xs @ ys) st = err_bind (parse_loop xs st) (parse_loop ys)"
    by (rule parse_loop_append)
  have c12: "parse_loop xs st = Inr st2 \<longrightarrow> parse_loop (xs @ ys) st = parse_loop ys st2"
    by (simp add: parse_loop_append err_bind_def)
  have c13: "nsmap ''mpd'' = Some uri \<and> uri \<noteq> [] \<and> hd uri \<noteq> CHR ''*'' \<and> hd uri \<noteq> CHR ''}'' \<and>
        parse_loop (filter (\<lambda>c. tag c = ''{'' @ uri @ ''}S'') (children e))
          \<lparr>number_list = [], time_list = [], current_time = None, start_number = 1\<rparr> = Inr st3 \<longrightarrow>
        timeline_parse nsmap (Some e) = Inr (number_list st3, time_list st3)"
  proof
    assume h: "nsmap ''mpd'' = Some uri \<and> uri \<noteq> [] \<and> hd uri \<noteq> CHR ''*'' \<and> hd uri \<noteq> CHR ''}'' \<and>
        parse_loop (filter (\<lambda>c. tag c = ''{'' @ uri @ ''}S'') (children e))
          \<lparr>number_list = [], time_list = [], current_time = None, start_number = 1\<rparr> = Inr st3"
    then have a: "nsmap ''mpd'' = Some uri" and b: "uri \<noteq> []" and c: "hd uri \<noteq> CHR ''*''"
      and d: "hd uri \<noteq> CHR ''}''" by simp_all
    from h timeline_parse_children [of nsmap uri e] a b c d
    show "timeline_parse nsmap (Some e) = Inr (number_list st3, time_list st3)" by simp
  qed
  have c14: "timeline_parse nsmap None = Inr ([], [])" by (simp add: timeline_parse_def)
  show ?thesis
    by (intro conjI; (rule c1 c2 c3 c4 c5 c6 c7 c8 c9 c10 c11 c12 c13 c14 timeline_example_decoded))
qed

theorem timeline_decoder_runs_witness:
  "get_attr s_without_d ''d'' = None
   \<and> parse_s s_without_d timeline_init = Inr timeline_init
   \<and> get_attr s_first ''d'' = Some ''10'' \<and> py_int ''10'' = Inr 10
   \<and> repeat_count s_first = Inr 2 \<and> run_start s_first (current_time timeline_init) = Inr 0
   \<and> (- 1 :: int) \<le> 2
   \<and> parse_s s_first timeline_init =
       Inr \<lparr>number_list = [1, 2, 3], time_list = [0, 10, 20], current_time = Some 30,
            start_number = 4\<rparr>
   \<and> get_attr (mpd_elem ''S'' [(''d'', ''5'')] []) ''r'' = None
   \<and> repeat_count (mpd_elem ''S'' [(''d'', ''5'')] []) = Inr 0
   \<and> get_attr s_first ''r'' = Some ''2''
   \<and> get_attr s_first ''t'' = Some ''0''
   \<and> is_digit CHR ''1'' \<and> is_digit CHR ''0''
   \<and> dash_ns ''mpd'' = Some ''urn:mpeg:dash:schema:mpd:2011''
   \<and> parse_loop (filter (\<lambda>c. tag c = ''{urn:mpeg:dash:schema:mpd:2011}S'') (children timeline_example))
        \<lparr>number_list = [], time_list = [], current_time = None, start_number = 1\<rparr> =
       Inr \<lparr>number_list = [1, 2, 3, 4], time_list = [0, 10, 20, 30], current_time = Some 35,
            start_number = 5\<rparr>
   \<and> timeline_parse dash_ns (Some timeline_example) = Inr ([1, 2, 3, 4], [0, 10, 20, 30])"
proof -
  have nd: "get_attr s_without_d ''d'' = None"
    by (simp add: s_without_d_def mpd_elem_def get_attr_def)
  have 1: "parse_s s_without_d timeline_init = Inr timeline_init"
    using timeline_decoder_runs [of s_without_d timeline_init] nd by blast
  have d: "get_attr s_first ''d'' = Some ''10''"
    by (simp add: s_first_def mpd_elem_def get_attr_def)
  have dg: "is_digit CHR ''1'' \<and> is_digit CHR ''0''" by (simp add: is_digit_def)
  then have dg': "''10'' \<noteq> [] \<and> (\<forall>c \<in> set ''10''. is_digit c)" by simp
  have v10: "digits_to_nat ''10'' = 10" by code_simp
  from timeline_decoder_runs [where digs = "''10''"] dg'
  have "py_int ''10'' = Inr (int (digits_to_nat ''10''))" by blast
  then have pd: "py_int ''10'' = Inr 10" by (simp add: v10)
  have gr: "get_attr s_first ''r'' = Some ''2''"
    by (simp add: s_first_def mpd_elem_def get_attr_def)
  have p2: "py_int ''2'' = Inr 2" by code_simp
  from timeline_decoder_runs [where s = s_first and rs = "''2''"] gr
  have "repeat_count s_first = py_int ''2''" by blast
  then have r: "repeat_count s_first = Inr 2" by (simp add: p2)
  have gt: "get_attr s_first ''t'' = Some ''0''"
    by (simp add: s_first_def mpd_elem_def get_attr_def)
  have p0: "py_int ''0'' = Inr 0" by code_simp
  from timeline_decoder_runs [where s = s_first and ts = "''0''" and ct = "current_time timeline_init"] gt
  have "run_start s_first (current_time timeline_init) = py_int ''0''" by blast
  then have t: "run_start s_first (current_time timeline_init) = Inr 0" by (simp add: p0)
  have le: "(- 1 :: int) \<le> 2" by simp
  note run = timeline_decoder_runs [where s = s_first and st = timeline_init and ds = "''10''"
      and d = 10 and r = 2 and ?t0.0 = 0, THEN conjunct2, THEN conjunct1]
  from run d pd r t
  obtain st' where st': "parse_s s_first timeline_init = Inr st'"
    "number_list st' = number_list timeline_init @ map (\<lambda>i. start_number timeline_init + int i) [0 ..< nat (2 + 1)]"
    "time_list st' = time_list timeline_init @ map (\<lambda>i. 0 + int i * 10) [0 ..< nat (2 + 1)]"
    "start_number st' = start_number timeline_init + int (nat (2 + 1))"
    "current_time st' = Some (0 + int (nat (2 + 1)) * 10)"
    by blast
  have n3: "[0 ..< 3] = [0, 1, 2]" by code_simp
  have "st' = \<lparr>number_list = [1, 2, 3], time_list = [0, 10, 20], current_time = Some 30,
            start_number = 4\<rparr>"
    using st'(2-5) by (cases st') (simp add: n3 timeline_init_def)
  with st'(1) have 2: "parse_s s_first timeline_init =
       Inr \<lparr>number_list = [1, 2, 3], time_list = [0, 10, 20], current_time = Some 30,
            start_number = 4\<rparr>" by simp
  have nr: "get_attr (mpd_elem ''S'' [(''d'', ''5'')] []) ''r'' = None"
    by (simp add: mpd_elem_def get_attr_def)
  have 3: "repeat_count (mpd_elem ''S'' [(''d'', ''5'')] []) = Inr 0"
    using timeline_decoder_runs [of "mpd_elem ''S'' [(''d'', ''5'')] []"] nr by blast
  have ns: "dash_ns ''mpd'' = Some ''urn:mpeg:dash:schema:mpd:2011''" by (simp add: dash_ns_def)
  have u: "''urn:mpeg:dash:schema:mpd:2011'' \<noteq> [] \<and> hd ''urn:mpeg:dash:schema:mpd:2011'' \<noteq> CHR ''*''
           \<and> hd ''urn:mpeg:dash:schema:mpd:2011'' \<noteq> CHR ''}''" by simp
  have pl: "parse_loop (filter (\<lambda>c. tag c = ''{urn:mpeg:dash:schema:mpd:2011}S'') (children timeline_example))
        \<lparr>number_list = [], time_list = [], current_time = None, start_number = 1\<rparr> =
       Inr \<lparr>number_list = [1, 2, 3, 4], time_list = [0, 10, 20, 30], current_time = Some 35,
            start_number = 5\<rparr>" by code_simp
  then have pl': "parse_loop (filter (\<lambda>c. tag c = ''{'' @ ''urn:mpeg:dash:schema:mpd:2011'' @ ''}S'')
                     (children timeline_example))
        \<lparr>number_list = [], time_list = [], current_time = None, start_number = 1\<rparr> =
       Inr \<lparr>number_list = [1, 2, 3, 4], time_list = [0, 10, 20, 30], current_time = Some 35,
            start_number = 5\<rparr>" by simp
  from timeline_decoder_runs [where nsmap = dash_ns and uri = "''urn:mpeg:dash:schema:mpd:2011''"
      and e = timeline_example
      and ?st3.0 = "\<lparr>number_list = [1, 2, 3, 4], time_list = [0, 10, 20, 30], current_time = Some 35,
            start_number = 5\<rparr>"] ns u pl'
  have 4: "timeline_parse dash_ns (Some timeline_example) = Inr ([1, 2, 3, 4], [0, 10, 20, 30])"
    by simp
  from nd 1 d pd r t le 2 nr 3 gr gt dg ns pl 4 show ?thesis by simp
qed

text \<open>
  The claim as stated fails on a repeat count below \<open>-1\<close>: an \<^verbatim>\<open>S\<close> element with \<open>d = 10\<close> and
  \<open>r = -3\<close> emits no entry, which is not \<open>r + 1\<close> entries, and it sets the current time.
\<close>

theorem timeline_negative_repeat_counterexample:
  "get_attr s_negative ''d'' = Some ''10''
   \<and> repeat_count s_negative = Inr (- 3)
   \<and> parse_s s_negative timeline_init =
       Inr \<lparr>number_list = [], time_list = [], current_time = Some 0, start_number = 1\<rparr>
   \<and> timeline_parse dash_ns (Some (mpd_elem ''SegmentTimeline'' [] [s_negative])) = Inr ([], [])
   \<and> int (length ([] :: int list)) \<noteq> - 3 + 1"
proof -
  have a: "get_attr s_negative ''d'' = Some ''10''"
    by (simp add: s_negative_def mpd_elem_def get_attr_def)
  have b: "repeat_count s_negative = Inr (- 3)" by code_simp
  have c: "parse_s s_negative timeline_init =
       Inr \<lparr>number_list = [], time_list = [], current_time = Some 0, start_number = 1\<rparr>"
    by code_simp
  have d: "timeline_parse dash_ns (Some (mpd_elem ''SegmentTimeline'' [] [s_negative])) = Inr ([], [])"
    by code_simp
  from a b c d show ?thesis by simp
qed

subsection \<open>Namespace registration and the PSSH search\<close>

lemma resolve_tag_registered:
  "nsmap prefix = Some uri \<Longrightarrow> resolve_tag nsmap prefix name = Inr (''{'' @ uri @ ''}'' @ name)"
  by (simp add: resolve_tag_def)

lemma find_child_registered:
  assumes "nsmap prefix = Some uri"
  shows "\<exists>found. find_child nsmap prefix name e = Inr found"
  using assms by (simp add: find_child_def findall_children_def resolve_tag_def err_bind_def)

lemma first_pssh_registered:
  assumes "nsmap ''cenc'' = Some c"
  shows "\<exists>found. first_pssh nsmap prots = Inr found"
proof (induction prots)
  case Nil
  show ?case by simp
next
  case (Cons protection rest)
  from find_child_registered [of nsmap "''cenc''" c "''pssh''" protection] assms
  obtain pe where pe: "find_child nsmap ''cenc'' ''pssh'' protection = Inr pe" by blast
  from Cons.IH obtain f where f: "first_pssh nsmap rest = Inr f" by blast
  show ?case
    using pe f by (auto simp: err_bind_def split: option.splits)
qed

lemma extract_pssh_registered:
  assumes "root p = Some r" and "ns p ''mpd'' = Some u" and "ns p ''cenc'' = Some c"
  shows "\<exists>p' out. extract_pssh p = (Inr p', out)"
proof -
  obtain prots where pr: "findall_descendants (ns p) ''mpd'' ''ContentProtection'' r = Inr prots"
    using assms(2) by (simp add: findall_descendants_def resolve_tag_def err_bind_def)
  from first_pssh_registered [of "ns p" c prots] assms(3)
  obtain found where f: "first_pssh (ns p) prots = Inr found" by blast
  show ?thesis
    using assms(1) pr f by (simp add: extract_pssh_def err_bind_def Let_def)
qed

lemma extract_pssh_nothing:
  assumes "root p = Some r"
    and "findall_descendants (ns p) ''mpd'' ''ContentProtection'' r = Inr []"
  shows "extract_pssh p =
         (Inr p, if pssh p = None \<or> pssh p = Some [] then [PSSH_not_found] else [])"
  using assms by (simp add: extract_pssh_def err_bind_def)

lemma extract_namespace_braced:
  assumes "root p = Some r" and "startswith (tag r) ''{''"
  shows "extract_namespace p =
         Inr (p\<lparr>ns := (ns p)(''mpd'' \<mapsto> fst (split_once CHR ''}'' (tl (tag r))),
                            ''cenc'' \<mapsto> cenc_uri)\<rparr>)"
  using assms by (simp add: extract_namespace_def)

lemma extract_namespace_plain:
  assumes "root p = Some r" and "\<not> startswith (tag r) ''{''"
  shows "extract_namespace p = Inr p"
  using assms by (simp add: extract_namespace_def)

lemma uri_of_tag:
  assumes "CHR ''}'' \<notin> set uri"
  shows "fst (split_once CHR ''}'' (tl (''{'' @ uri @ ''}'' @ name))) = uri"
  using split_once_found [OF assms, of name] by simp

lemma findall_descendants_uri:
  assumes "nsmap prefix = Some uri" and "uri \<noteq> []" and "hd uri \<noteq> CHR ''*''"
    and "hd uri \<noteq> CHR ''}''"
  shows "findall_descendants nsmap prefix name e =
         Inr (filter (\<lambda>c. tag c = ''{'' @ uri @ ''}'' @ name) (descendants e))"
proof -
  obtain c cs where u: "uri = c # cs" using assms(2) by (cases uri) auto
  with assms(3) have c: "c \<noteq> CHR ''*''" by simp
  have a: "\<not> startswith (''{'' @ uri @ ''}'' @ name) ''{*}''" using c by (simp add: u)
  have b: "\<not> startswith (''{'' @ uri @ ''}'' @ name) ''{}''" using assms(4) by (simp add: u)
  have "tag_selected (''{'' @ uri @ ''}'' @ name) = (\<lambda>t. t = ''{'' @ uri @ ''}'' @ name)"
    using a b by (simp add: tag_selected_def fun_eq_iff)
  then show ?thesis
    using assms(1) by (simp add: findall_descendants_def resolve_tag_def err_bind_def)
qed

lemma find_child_uri:
  assumes "nsmap prefix = Some uri" and "uri \<noteq> []" and "hd uri \<noteq> CHR ''*''"
    and "hd uri \<noteq> CHR ''}''"
  shows "find_child nsmap prefix name e =
         Inr (case filter (\<lambda>c. tag c = ''{'' @ uri @ ''}'' @ name) (children e) of
                [] \<Rightarrow> None | c # cs \<Rightarrow> Some c)"
  using findall_children_registered [of nsmap prefix uri name e] assms
  by (simp add: find_child_def err_bind_def)

lemma first_pssh_skip:
  assumes "nsmap ''cenc'' = Some c" and "c \<noteq> []" and "hd c \<noteq> CHR ''*''" and "hd c \<noteq> CHR ''}''"
    and "\<forall>k ks. filter (\<lambda>k. tag k = ''{'' @ c @ ''}pssh'') (children x) = k # ks \<longrightarrow>
                 elem_text k = None \<or> elem_text k = Some []"
  shows "first_pssh nsmap (x # rest) = first_pssh nsmap rest"
proof -
  note fc = find_child_uri [of nsmap "''cenc''" c "''pssh''" x] assms(1-4)
  show ?thesis
  proof (cases "filter (\<lambda>k. tag k = ''{'' @ c @ ''}pssh'') (children x)")
    case Nil
    with fc show ?thesis by (simp add: err_bind_def)
  next
    case (Cons k ks)
    with assms(5) have "elem_text k = None \<or> elem_text k = Some []" by blast
    with fc Cons show ?thesis by (auto simp: err_bind_def)
  qed
qed

lemma first_pssh_hit:
  assumes "nsmap ''cenc'' = Some c" and "c \<noteq> []" and "hd c \<noteq> CHR ''*''" and "hd c \<noteq> CHR ''}''"
    and "filter (\<lambda>k. tag k = ''{'' @ c @ ''}pssh'') (children y) = k # ks"
    and "elem_text k = Some t" and "t \<noteq> []"
  shows "first_pssh nsmap (y # rest) = Inr (Some t)"
  using find_child_uri [of nsmap "''cenc''" c "''pssh''" y] assms
  by (simp add: err_bind_def)

lemma first_pssh_found:
  assumes "nsmap ''cenc'' = Some c" and "c \<noteq> []" and "hd c \<noteq> CHR ''*''" and "hd c \<noteq> CHR ''}''"
    and "\<forall>x \<in> set pre. \<forall>k ks. filter (\<lambda>k. tag k = ''{'' @ c @ ''}pssh'') (children x) = k # ks \<longrightarrow>
                 elem_text k = None \<or> elem_text k = Some []"
    and "filter (\<lambda>k. tag k = ''{'' @ c @ ''}pssh'') (children y) = k # ks"
    and "elem_text k = Some t" and "t \<noteq> []"
  shows "first_pssh nsmap (pre @ y # rest) = Inr (Some t)"
  using assms(5)
proof (induction pre)
  case Nil
  show ?case using first_pssh_hit [of nsmap c y k ks t rest] assms(1-4) assms(6-8) by simp
next
  case (Cons x pre)
  then have x: "\<forall>k ks. filter (\<lambda>k. tag k = ''{'' @ c @ ''}pssh'') (children x) = k # ks \<longrightarrow>
                 elem_text k = None \<or> elem_text k = Some []"
    and pre: "\<forall>x \<in> set pre. \<forall>k ks. filter (\<lambda>k. tag k = ''{'' @ c @ ''}pssh'') (children x) = k # ks \<longrightarrow>
                 elem_text k = None \<or> elem_text k = Some []"
    by simp_all
  have "first_pssh nsmap (x # (pre @ y # rest)) = first_pssh nsmap (pre @ y # rest)"
    using first_pssh_skip [of nsmap c x "pre @ y # rest"] assms(1-4) x by blast
  with Cons.IH [OF pre] show ?case by simp
qed

lemma first_pssh_none:
  assumes "nsmap ''cenc'' = Some c" and "c \<noteq> []" and "hd c \<noteq> CHR ''*''" and "hd c \<noteq> CHR ''}''"
    and "\<forall>x \<in> set prots. \<forall>k ks. filter (\<lambda>k. tag k = ''{'' @ c @ ''}pssh'') (children x) = k # ks \<longrightarrow>
                 elem_text k = None \<or> elem_text k = Some []"
  shows "first_pssh nsmap prots = Inr None"
  using assms(5)
proof (induction prots)
  case Nil
  show ?case by simp
next
  case (Cons x prots)
  then have x: "\<forall>k ks. filter (\<lambda>k. tag k = ''{'' @ c @ ''}pssh'') (children x) = k # ks \<longrightarrow>
                 elem_text k = None \<or> elem_text k = Some []"
    and rest: "\<forall>x \<in> set prots. \<forall>k ks. filter (\<lambda>k. tag k = ''{'' @ c @ ''}pssh'') (children x) = k # ks \<longrightarrow>
                 elem_text k = None \<or> elem_text k = Some []"
    by simp_all
  have "first_pssh nsmap (x # prots) = first_pssh nsmap prots"
    using first_pssh_skip [of nsmap c x prots] assms(1-4) x by blast
  with Cons.IH [OF rest] show ?case by simp
qed

lemma extract_pssh_found:
  assumes "root p = Some r" and "ns p ''mpd'' = Some u" and "ns p ''cenc'' = Some c"
    and "u \<noteq> []" and "hd u \<noteq> CHR ''*''" and "hd u \<noteq> CHR ''}''"
    and "c \<noteq> []" and "hd c \<noteq> CHR ''*''" and "hd c \<noteq> CHR ''}''"
    and "filter (\<lambda>x. tag x = ''{'' @ u @ ''}ContentProtection'') (descendants r) = pre @ y # rest"
    and "\<forall>x \<in> set pre. \<forall>k ks. filter (\<lambda>k. tag k = ''{'' @ c @ ''}pssh'') (children x) = k # ks \<longrightarrow>
                 elem_text k = None \<or> elem_text k = Some []"
    and "filter (\<lambda>k. tag k = ''{'' @ c @ ''}pssh'') (children y) = k # ks"
    and "elem_text k = Some t" and "t \<noteq> []"
  shows "extract_pssh p = (Inr (p\<lparr>pssh := Some t\<rparr>), [])"
proof -
  have a: "findall_descendants (ns p) ''mpd'' ''ContentProtection'' r = Inr (pre @ y # rest)"
    using findall_descendants_uri [of "ns p" "''mpd''" u "''ContentProtection''" r] assms(2,4-6,10)
    by simp
  have b: "first_pssh (ns p) (pre @ y # rest) = Inr (Some t)"
    using first_pssh_found [of "ns p" c pre y k ks t rest] assms(3,7-9,11-14) by blast
  show ?thesis
    using assms(1,14) a b by (simp add: extract_pssh_def err_bind_def)
qed

lemma extract_pssh_none:
  assumes "root p = Some r" and "ns p ''mpd'' = Some u" and "ns p ''cenc'' = Some c"
    and "u \<noteq> []" and "hd u \<noteq> CHR ''*''" and "hd u \<noteq> CHR ''}''"
    and "c \<noteq> []" and "hd c \<noteq> CHR ''*''" and "hd c \<noteq> CHR ''}''"
    and "\<forall>x \<in> set (filter (\<lambda>x. tag x = ''{'' @ u @ ''}ContentProtection'') (descendants r)).
           \<forall>k ks. filter (\<lambda>k. tag k = ''{'' @ c @ ''}pssh'') (children x) = k # ks \<longrightarrow>
                 elem_text k = None \<or> elem_text k = Some []"
  shows "extract_pssh p =
         (Inr p, if pssh p = None \<or> pssh p = Some [] then [PSSH_not_found] else [])"
proof -
  let ?prots = "filter (\<lambda>x. tag x = ''{'' @ u @ ''}ContentProtection'') (descendants r)"
  have a: "findall_descendants (ns p) ''mpd'' ''ContentProtection'' r = Inr ?prots"
    using findall_descendants_uri [of "ns p" "''mpd''" u "''ContentProtection''" r] assms(2,4-6)
    by simp
  have b: "first_pssh (ns p) ?prots = Inr None"
    using first_pssh_none [of "ns p" c ?prots] assms(3,7-10) by blast
  show ?thesis
    using assms(1) a b by (simp add: extract_pssh_def err_bind_def)
qed

text \<open>
  Claim C2, as amended. When the root tag starts with an opening brace, namespace resolution
  registers the URI between the braces under \<^verbatim>\<open>mpd\<close> and the fixed URI
  \<^verbatim>\<open>urn:mpeg:cenc:2013\<close> under \<^verbatim>\<open>cenc\<close>; when the root tag carries no namespace it registers
  neither and leaves the namespace dictionary as it was. With both prefixes registered the
  PSSH search never raises. It goes through the \<^verbatim>\<open>ContentProtection\<close> descendants of the root
  in document order and looks at the first \<^verbatim>\<open>pssh\<close> child of each: the first such child with
  a text that is not empty gives the PSSH, and the search stops there; when there is none,
  the parser is left as it was and the missing PSSH is reported. (The URIs are taken not to
  be empty and not to begin with \<^verbatim>\<open>*\<close> or \<^verbatim>\<open>}\<close>, which ElementPath reads as wildcards.)
\<close>

theorem namespace_registration:
  "(root p = Some r \<and> startswith (tag r) ''{'' \<longrightarrow>
      extract_namespace p =
        Inr (p\<lparr>ns := (ns p)(''mpd'' \<mapsto> fst (split_once CHR ''}'' (tl (tag r))),
                           ''cenc'' \<mapsto> cenc_uri)\<rparr>))
   \<and> (CHR ''}'' \<notin> set uri \<longrightarrow>
        fst (split_once CHR ''}'' (tl (''{'' @ uri @ ''}'' @ name))) = uri)
   \<and> cenc_uri = ''urn:mpeg:cenc:2013''
   \<and> (root p = Some r \<and> \<not> startswith (tag r) ''{'' \<longrightarrow> extract_namespace p = Inr p)
   \<and> (root p = Some r \<and> ns p ''mpd'' = Some u \<and> ns p ''cenc'' = Some c \<longrightarrow>
        (\<exists>p' out. extract_pssh p = (Inr p', out)))
   \<and> (root p = Some r \<and>
        findall_descendants (ns p) ''mpd'' ''ContentProtection'' r = Inr [] \<longrightarrow>
        extract_pssh p =
          (Inr p, if pssh p = None \<or> pssh p = Some [] then [PSSH_not_found] else []))
   \<and> (root p = Some r \<and> ns p ''mpd'' = Some u \<and> ns p ''cenc'' = Some c \<and>
        u \<noteq> [] \<and> hd u \<noteq> CHR ''*'' \<and> hd u \<noteq> CHR ''}'' \<and>
        c \<noteq> [] \<and> hd c \<noteq> CHR ''*'' \<and> hd c \<noteq> CHR ''}'' \<and>
        filter (\<lambda>x. tag x = ''{'' @ u @ ''}ContentProtection'') (descendants r) = pre @ y # rest \<and>
        (\<forall>x \<in> set pre. \<forall>k ks.
           filter (\<lambda>k. tag k = ''{'' @ c @ ''}pssh'') (children x) = k # ks \<longrightarrow>
           elem_text k = None \<or> elem_text k = Some []) \<and>
        filter (\<lambda>k. tag k = ''{'' @ c @ ''}pssh'') (children y) = k # ks \<and>
        elem_text k = Some t \<and> t \<noteq> [] \<longrightarrow>
        extract_pssh p = (Inr (p\<lparr>pssh := Some t\<rparr>), []))
   \<and> (root p = Some r \<and> ns p ''mpd'' = Some u \<and> ns p ''cenc'' = Some c \<and>
        u \<noteq> [] \<and> hd u \<noteq> CHR ''*'' \<and> hd u \<noteq> CHR ''}'' \<and>
        c \<noteq> [] \<and> hd c \<noteq> CHR ''*'' \<and> hd c \<noteq> CHR ''}'' \<and>
        (\<forall>x \<in> set (filter (\<lambda>x. tag x = ''{'' @ u @ ''}ContentProtection'') (descendants r)).
           \<forall>k ks. filter (\<lambda>k. tag k = ''{'' @ c @ ''}pssh'') (children x) = k # ks \<longrightarrow>
           elem_text k = None \<or> elem_text k = Some []) \<longrightarrow>
        extract_pssh p =
          (Inr p, if pssh p = None \<or> pssh p = Some [] then [PSSH_not_found] else []))
   \<and> descendants (Element tg attrs txt cs) = concat (map (\<lambda>c. c # descendants c) cs)"
proof -
  have c1: "root p = Some r \<and> startswith (tag r) ''{'' \<longrightarrow>
      extract_namespace p =
        Inr (p\<lparr>ns := (ns p)(''mpd'' \<mapsto> fst (split_once CHR ''}'' (tl (tag r))),
                           ''cenc'' \<mapsto> cenc_uri)\<rparr>)"
    using extract_namespace_braced [of p r] by blast
  have c2: "CHR ''}'' \<notin> set uri \<longrightarrow>
        fst (split_once CHR ''}'' (tl (''{'' @ uri @ ''}'' @ name))) = uri"
    using uri_of_tag [of uri name] by blast
  have c3: "cenc_uri = ''urn:mpeg:cenc:2013''" by (simp add: cenc_uri_def)
  have c4: "root p = Some r \<and> \<not> startswith (tag r) ''{'' \<longrightarrow> extract_namespace p = Inr p"
    using extract_namespace_plain [of p r] by blast
  have c5: "root p = Some r \<and> ns p ''mpd'' = Some u \<and> ns p ''cenc'' = Some c \<longrightarrow>
        (\<exists>p' out. extract_pssh p = (Inr p', out))"
    using extract_pssh_registered [of p r u c] by blast
  have c6: "root p = Some r \<and>
        findall_descendants (ns p) ''mpd'' ''ContentProtection'' r = Inr [] \<longrightarrow>
        extract_pssh p =
          (Inr p, if pssh p = None \<or> pssh p = Some [] then [PSSH_not_found] else [])"
    using extract_pssh_nothing [of p r] by blast
  have c7: "root p = Some r \<and> ns p ''mpd'' = Some u \<and> ns p ''cenc'' = Some c \<and>
        u \<noteq> [] \<and> hd u \<noteq> CHR ''*'' \<and> hd u \<noteq> CHR ''}'' \<and>
        c \<noteq> [] \<and> hd c \<noteq> CHR ''*'' \<and> hd c \<noteq> CHR ''}'' \<and>
        filter (\<lambda>x. tag x = ''{'' @ u @ ''}ContentProtection'') (descendants r) = pre @ y # rest \<and>
        (\<forall>x \<in> set pre. \<forall>k ks.
           filter (\<lambda>k. tag k = ''{'' @ c @ ''}pssh'') (children x) = k # ks \<longrightarrow>
           elem_text k = None \<or> elem_text k = Some []) \<and>
        filter (\<lambda>k. tag k = ''{'' @ c @ ''}pssh'') (children y) = k # ks \<and>
        elem_text k = Some t \<and> t \<noteq> [] \<longrightarrow>
        extract_pssh p = (Inr (p\<lparr>pssh := Some t\<rparr>), [])"
  proof
    assume h: "root p = Some r \<and> ns p ''mpd'' = Some u \<and> ns p ''cenc'' = Some c \<and>
        u \<noteq> [] \<and> hd u \<noteq> CHR ''*'' \<and> hd u \<noteq> CHR ''}'' \<and>
        c \<noteq> [] \<and> hd c \<noteq> CHR ''*'' \<and> hd c \<noteq> CHR ''}'' \<and>
        filter (\<lambda>x. tag x = ''{'' @ u @ ''}ContentProtection'') (descendants r) = pre @ y # rest \<and>
        (\<forall>x \<in> set pre. \<forall>k ks.
           filter (\<lambda>k. tag k = ''{'' @ c @ ''}pssh'') (children x) = k # ks \<longrightarrow>
           elem_text k = None \<or> elem_text k = Some []) \<and>
        filter (\<lambda>k. tag k = ''{'' @ c @ ''}pssh'') (children y) = k # ks \<and>
        elem_text k = Some t \<and> t \<noteq> []"
    then have a: "root p = Some r" "ns p ''mpd'' = Some u" "ns p ''cenc'' = Some c"
      "u \<noteq> []" "hd u \<noteq> CHR ''*''" "hd u \<noteq> CHR ''}''"
      "c \<noteq> []" "hd c \<noteq> CHR ''*''" "hd c \<noteq> CHR ''}''"
      "filter (\<lambda>x. tag x = ''{'' @ u @ ''}ContentProtection'') (descendants r) = pre @ y # rest"
      "\<forall>x \<in> set pre. \<forall>k ks.
           filter (\<lambda>k. tag k = ''{'' @ c @ ''}pssh'') (children x) = k # ks \<longrightarrow>
           elem_text k = None \<or> elem_text k = Some []"
      "filter (\<lambda>k. tag k = ''{'' @ c @ ''}pssh'') (children y) = k # ks"
      "elem_text k = Some t" "t \<noteq> []"
      by simp_all
    show "extract_pssh p = (Inr (p\<lparr>pssh := Some t\<rparr>), [])"
      using extract_pssh_found [of p r u c pre y rest k ks t] a by blast
  qed
  have c8: "root p = Some r \<and> ns p ''mpd'' = Some u \<and> ns p ''cenc'' = Some c \<and>
        u \<noteq> [] \<and> hd u \<noteq> CHR ''*'' \<and> hd u \<noteq> CHR ''}'' \<and>
        c \<noteq> [] \<and> hd c \<noteq> CHR ''*'' \<and> hd c \<noteq> CHR ''}'' \<and>
        (\<forall>x \<in> set (filter (\<lambda>x. tag x = ''{'' @ u @ ''}ContentProtection'') (descendants r)).
           \<forall>k ks. filter (\<lambda>k. tag k = ''{'' @ c @ ''}pssh'') (children x) = k # ks \<longrightarrow>
           elem_text k = None \<or> elem_text k = Some []) \<longrightarrow>
        extract_pssh p =
          (Inr p, if pssh p = None \<or> pssh p = Some [] then [PSSH_not_found] else [])"
  proof
    assume h: "root p = Some r \<and> ns p ''mpd'' = Some u \<and> ns p ''cenc'' = Some c \<and>
        u \<noteq> [] \<and> hd u \<noteq> CHR ''*'' \<and> hd u \<noteq> CHR ''}'' \<and>
        c \<noteq> [] \<and> hd c \<noteq> CHR ''*'' \<and> hd c \<noteq> CHR ''}'' \<and>
        (\<forall>x \<in> set (filter (\<lambda>x. tag x = ''{'' @ u @ ''}ContentProtection'') (descendants r)).
           \<forall>k ks. filter (\<lambda>k. tag k = ''{'' @ c @ ''}pssh'') (children x) = k # ks \<longrightarrow>
           elem_text k = None \<or> elem_text k = Some [])"
    then have a: "root p = Some r" "ns p ''mpd'' = Some u" "ns p ''cenc'' = Some c"
      "u \<noteq> []" "hd u \<noteq> CHR ''*''" "hd u \<noteq> CHR ''}''"
      "c \<noteq> []" "hd c \<noteq> CHR ''*''" "hd c \<noteq> CHR ''}''"
      "\<forall>x \<in> set (filter (\<lambda>x. tag x = ''{'' @ u @ ''}ContentProtection'') (descendants r)).
           \<forall>k ks. filter (\<lambda>k. tag k = ''{'' @ c @ ''}pssh'') (children x) = k # ks \<longrightarrow>
           elem_text k = None \<or> elem_text k = Some []"
      by simp_all
    show "extract_pssh p =
          (Inr p, if pssh p = None \<or> pssh p = Some [] then [PSSH_not_found] else [])"
      using extract_pssh_none [of p r u c] a by blast
  qed
  have c9: "descendants (Element tg attrs txt cs) = concat (map (\<lambda>c. c # descendants c) cs)"
    by simp
  show ?thesis
    by (intro conjI; (rule c1 c2 c3 c4 c5 c6 c7 c8 c9))
qed

lemma clear_mpd_registered:
  "extract_namespace (parser_of clear_mpd) = Inr ((parser_of clear_mpd)\<lparr>ns := dash_ns\<rparr>)"
  by (simp add: extract_namespace_def parser_of_def new_parser_def clear_mpd_def mpd_elem_def
      split_once_def dash_ns_def cenc_uri_def)

theorem namespace_registration_witness:
  "root (parser_of clear_mpd) = Some clear_mpd \<and> startswith (tag clear_mpd) ''{''
   \<and> extract_namespace (parser_of clear_mpd) = Inr ((parser_of clear_mpd)\<lparr>ns := dash_ns\<rparr>)
   \<and> CHR ''}'' \<notin> set ''urn:mpeg:dash:schema:mpd:2011''
   \<and> fst (split_once CHR ''}'' (tl ''{urn:mpeg:dash:schema:mpd:2011}MPD'')) =
        ''urn:mpeg:dash:schema:mpd:2011''
   \<and> root (parser_of plain_mpd) = Some plain_mpd \<and> \<not> startswith (tag plain_mpd) ''{''
   \<and> extract_namespace (parser_of plain_mpd) = Inr (parser_of plain_mpd)
   \<and> dash_ns ''mpd'' = Some ''urn:mpeg:dash:schema:mpd:2011''
   \<and> dash_ns ''cenc'' = Some ''urn:mpeg:cenc:2013''
   \<and> filter (\<lambda>x. tag x = ''{urn:mpeg:dash:schema:mpd:2011}ContentProtection'')
        (descendants protected_mpd) =
      [mpd_elem ''ContentProtection'' [] [],
       mpd_elem ''ContentProtection'' []
         [Element ''{urn:mpeg:cenc:2013}pssh'' [] (Some ''AAAAbHBzc2g='') []]]
   \<and> extract_pssh ((parser_of protected_mpd)\<lparr>ns := dash_ns\<rparr>) =
        (Inr ((parser_of protected_mpd)\<lparr>ns := dash_ns, pssh := Some ''AAAAbHBzc2g=''\<rparr>), [])
   \<and> findall_descendants dash_ns ''mpd'' ''ContentProtection'' clear_mpd = Inr []
   \<and> extract_pssh ((parser_of clear_mpd)\<lparr>ns := dash_ns\<rparr>) =
        (Inr ((parser_of clear_mpd)\<lparr>ns := dash_ns\<rparr>), [PSSH_not_found])
   \<and> extract_pssh ((parser_of empty_pssh_mpd)\<lparr>ns := dash_ns\<rparr>) =
        (Inr ((parser_of empty_pssh_mpd)\<lparr>ns := dash_ns\<rparr>), [PSSH_not_found])"
proof -
  have r1: "root (parser_of clear_mpd) = Some clear_mpd \<and> startswith (tag clear_mpd) ''{''"
    by (simp add: parser_of_def clear_mpd_def mpd_elem_def)
  note reg = namespace_registration [where p = "parser_of clear_mpd" and r = clear_mpd,
      THEN conjunct1]
  have 1: "extract_namespace (parser_of clear_mpd) = Inr ((parser_of clear_mpd)\<lparr>ns := dash_ns\<rparr>)"
    using reg r1 by (simp add: clear_mpd_registered)
  have u: "CHR ''}'' \<notin> set ''urn:mpeg:dash:schema:mpd:2011''" by simp
  note uri = namespace_registration [where uri = "''urn:mpeg:dash:schema:mpd:2011''"
      and name = "''MPD''", THEN conjunct2, THEN conjunct1]
  have 2: "fst (split_once CHR ''}'' (tl ''{urn:mpeg:dash:schema:mpd:2011}MPD'')) =
        ''urn:mpeg:dash:schema:mpd:2011''"
    using uri u by simp
  have r2: "root (parser_of plain_mpd) = Some plain_mpd \<and> \<not> startswith (tag plain_mpd) ''{''"
    by (simp add: parser_of_def plain_mpd_def)
  note plain = namespace_registration [where p = "parser_of plain_mpd" and r = plain_mpd,
      THEN conjunct2, THEN conjunct2, THEN conjunct2, THEN conjunct1]
  have 3: "extract_namespace (parser_of plain_mpd) = Inr (parser_of plain_mpd)"
    using plain r2 by blast
  have n: "dash_ns ''mpd'' = Some ''urn:mpeg:dash:schema:mpd:2011'' \<and>
           dash_ns ''cenc'' = Some ''urn:mpeg:cenc:2013''"
    by (simp add: dash_ns_def)
  let ?u = "''urn:mpeg:dash:schema:mpd:2011''"
  let ?c = "''urn:mpeg:cenc:2013''"
  let ?cp1 = "mpd_elem ''ContentProtection'' [] []"
  let ?k = "Element ''{urn:mpeg:cenc:2013}pssh'' [] (Some ''AAAAbHBzc2g='') []"
  let ?cp2 = "mpd_elem ''ContentProtection'' [] [?k]"
  let ?P = "(parser_of protected_mpd)\<lparr>ns := dash_ns\<rparr>"
  have wf: "?u \<noteq> [] \<and> hd ?u \<noteq> CHR ''*'' \<and> hd ?u \<noteq> CHR ''}'' \<and>
            ?c \<noteq> [] \<and> hd ?c \<noteq> CHR ''*'' \<and> hd ?c \<noteq> CHR ''}''" by simp
  have r3: "root ?P = Some protected_mpd \<and> ns ?P ''mpd'' = Some ?u \<and> ns ?P ''cenc'' = Some ?c"
    by (simp add: parser_of_def dash_ns_def)
  have d4: "filter (\<lambda>x. tag x = ''{urn:mpeg:dash:schema:mpd:2011}ContentProtection'')
              (descendants protected_mpd) = [?cp1, ?cp2]"
    by code_simp
  then have d4': "filter (\<lambda>x. tag x = ''{'' @ ?u @ ''}ContentProtection'')
              (descendants protected_mpd) = [?cp1] @ ?cp2 # []"
    by simp
  have pre4: "\<forall>x \<in> set [?cp1]. \<forall>k ks.
           filter (\<lambda>k. tag k = ''{'' @ ?c @ ''}pssh'') (children x) = k # ks \<longrightarrow>
           elem_text k = None \<or> elem_text k = Some []"
    by (simp add: mpd_elem_def)
  have y4: "filter (\<lambda>k. tag k = ''{'' @ ?c @ ''}pssh'') (children ?cp2) = ?k # []"
    by (simp add: mpd_elem_def)
  have t4: "elem_text ?k = Some ''AAAAbHBzc2g='' \<and> ''AAAAbHBzc2g='' \<noteq> []" by simp
  note found = namespace_registration [where p = ?P and r = protected_mpd and u = ?u and c = ?c
      and pre = "[?cp1]" and y = ?cp2 and rest = "[]" and k = ?k and ks = "[]"
      and t = "''AAAAbHBzc2g=''",
      THEN conjunct2, THEN conjunct2, THEN conjunct2, THEN conjunct2, THEN conjunct2,
      THEN conjunct2, THEN conjunct1]
  have "extract_pssh ?P = (Inr (?P\<lparr>pssh := Some ''AAAAbHBzc2g=''\<rparr>), [])"
    using found r3 wf d4' pre4 y4 t4 by blast
  then have 4: "extract_pssh ?P =
        (Inr ((parser_of protected_mpd)\<lparr>ns := dash_ns, pssh := Some ''AAAAbHBzc2g=''\<rparr>), [])"
    by simp
  let ?C = "(parser_of clear_mpd)\<lparr>ns := dash_ns\<rparr>"
  have f: "findall_descendants dash_ns ''mpd'' ''ContentProtection'' clear_mpd = Inr []"
    by code_simp
  have r5: "root ?C = Some clear_mpd \<and>
            findall_descendants (ns ?C) ''mpd'' ''ContentProtection'' clear_mpd = Inr []"
    using f by (simp add: parser_of_def)
  have p5: "pssh ?C = None" by (simp add: parser_of_def new_parser_def)
  note absent = namespace_registration [where p = ?C and r = clear_mpd,
      THEN conjunct2, THEN conjunct2, THEN conjunct2, THEN conjunct2, THEN conjunct2,
      THEN conjunct1]
  have "extract_pssh ?C =
          (Inr ?C, if pssh ?C = None \<or> pssh ?C = Some [] then [PSSH_not_found] else [])"
    using absent r5 by blast
  then have 5: "extract_pssh ?C = (Inr ?C, [PSSH_not_found])" using p5 by simp
  let ?E = "(parser_of empty_pssh_mpd)\<lparr>ns := dash_ns\<rparr>"
  have r6: "root ?E = Some empty_pssh_mpd \<and> ns ?E ''mpd'' = Some ?u \<and> ns ?E ''cenc'' = Some ?c"
    by (simp add: parser_of_def dash_ns_def)
  have d6: "filter (\<lambda>x. tag x = ''{urn:mpeg:dash:schema:mpd:2011}ContentProtection'')
              (descendants empty_pssh_mpd) =
            [mpd_elem ''ContentProtection'' [] [],
             mpd_elem ''ContentProtection'' [] [Element ''{urn:mpeg:cenc:2013}pssh'' [] None []],
             mpd_elem ''ContentProtection'' [] [Element ''{urn:mpeg:cenc:2013}pssh'' [] (Some []) []]]"
    by code_simp
  have a6: "\<forall>x \<in> set (filter (\<lambda>x. tag x = ''{'' @ ?u @ ''}ContentProtection'')
                        (descendants empty_pssh_mpd)).
           \<forall>k ks. filter (\<lambda>k. tag k = ''{'' @ ?c @ ''}pssh'') (children x) = k # ks \<longrightarrow>
           elem_text k = None \<or> elem_text k = Some []"
    using d6 by (auto simp: mpd_elem_def)
  have p6: "pssh ?E = None" by (simp add: parser_of_def new_parser_def)
  note none = namespace_registration [where p = ?E and r = empty_pssh_mpd and u = ?u and c = ?c,
      THEN conjunct2, THEN conjunct2, THEN conjunct2, THEN conjunct2, THEN conjunct2,
      THEN conjunct2, THEN conjunct2, THEN conjunct1]
  have "extract_pssh ?E =
          (Inr ?E, if pssh ?E = None \<or> pssh ?E = Some [] then [PSSH_not_found] else [])"
    using none r6 wf a6 by blast
  then have 6: "extract_pssh ?E = (Inr ?E, [PSSH_not_found])" using p6 by simp
  from r1 1 u 2 r2 3 n d4 4 f 5 6 show ?thesis by simp
qed

text \<open>
  The claim as stated fails on a root without namespace: the \<^verbatim>\<open>cenc\<close> URI is not registered
  (nor is \<^verbatim>\<open>mpd\<close>), and the PSSH search, whose path names the prefix \<^verbatim>\<open>mpd\<close>, raises
  \<^verbatim>\<open>SyntaxError\<close> instead of finding nothing.
\<close>

theorem namespace_unregistered_counterexample:
  "root (parser_of plain_mpd) = Some plain_mpd
   \<and> tag plain_mpd = ''MPD''
   \<and> extract_namespace (parser_of plain_mpd) = Inr (parser_of plain_mpd)
   \<and> ns (parser_of plain_mpd) ''cenc'' = None
   \<and> ns (parser_of plain_mpd) ''mpd'' = None
   \<and> extract_pssh (parser_of plain_mpd) = (Inl SyntaxError, [])"
  by (simp add: parser_of_def new_parser_def plain_mpd_def extract_namespace_def
      extract_pssh_def findall_descendants_def resolve_tag_def err_bind_def)


end
